theory Spec2Isabelle
  imports Main "HOL-Library.Multiset"
begin

section \<open>Python values and errors\<close>

text \<open>
  Every exception the modelled code can raise is a value: the exception class with its
  message (the empty message where the interpreter supplies one of its own).
  Functions that may raise return \<open>error + 'a\<close>, with \<open>Inl\<close> for the raise.
  Functions holding a loop that may run forever return an \<open>option\<close> around that:
  \<open>None\<close> is "never returns".
\<close>

datatype error =
    ValueError string
  | TypeError string
  | NameError string
  | AttributeError string
  | ZeroDivisionError
  | AssertionError
  | KeyError string

section \<open>\<open>_util.py\<close>: assorted utilities\<close>

subsection \<open>\<open>fit_to_epoch\<close>\<close>

text \<open>
  \<open>epochs\<close> is either a callable, turned into the endless iterator
  \<open>map(epochs, count())\<close>, or a finite iterable of sizes.
\<close>

datatype epochs = Callable "nat \<Rightarrow> int" | Iterable "int list"

text \<open>The \<open>for\<close> loop over the endless iterator: it can only leave by \<open>break\<close>.\<close>

partial_function (option) fit_callable :: "int \<Rightarrow> (nat \<Rightarrow> int) \<Rightarrow> nat \<Rightarrow> int \<Rightarrow> (nat \<times> int) option" where
  "fit_callable i f epoch_index epoch_offset =
     (if i - epoch_offset > f epoch_index
      then fit_callable i f (Suc epoch_index) (epoch_offset + f epoch_index)
      else Some (epoch_index, epoch_offset))"

text \<open>The \<open>for\<close> loop over a finite iterable: its \<open>else\<close> branch raises when the
  iterable is exhausted without a \<open>break\<close>.\<close>

fun fit_iterable :: "int \<Rightarrow> int list \<Rightarrow> nat \<Rightarrow> int \<Rightarrow> error + nat \<times> int" where
  "fit_iterable i [] epoch_index epoch_offset = Inl (ValueError ''exhausted epochs without fitting i'')"
| "fit_iterable i (current_epoch_offset # rest) epoch_index epoch_offset =
     (if i - epoch_offset > current_epoch_offset
      then fit_iterable i rest (Suc epoch_index) (epoch_offset + current_epoch_offset)
      else Inr (epoch_index, epoch_offset))"

fun fit_to_epoch :: "int \<Rightarrow> epochs \<Rightarrow> (error + nat \<times> int) option" where
  "fit_to_epoch i (Callable f) = map_option Inr (fit_callable i f 0 0)"
| "fit_to_epoch i (Iterable xs) = Some (fit_iterable i xs 0 0)"

subsection \<open>\<open>search_maxsatisfying\<close>\<close>

definition sys_maxsize :: int where
  "sys_maxsize = 2 ^ 63 - 1"

text \<open>The default of the keyword argument \<open>_increasefunc\<close>.\<close>

definition increasefunc :: "int \<Rightarrow> int" where
  "increasefunc n = n * (sys_maxsize + 1)"

text \<open>Step 1, the exponential approach: \<open>while predicate(upper_bound)\<close>. It runs forever
  on a predicate that never fails.\<close>

partial_function (option) exponential_approach :: "(int \<Rightarrow> bool) \<Rightarrow> (int \<Rightarrow> int) \<Rightarrow> int \<Rightarrow> int \<Rightarrow> (int \<times> int) option" where
  "exponential_approach predicate incf lower_bound upper_bound =
     (if predicate upper_bound
      then exponential_approach predicate incf upper_bound (incf upper_bound)
      else Some (lower_bound, upper_bound))"

text \<open>Step 2, the binary search: \<open>while (upper_bound - lower_bound) > 1\<close>. The result is
  the final \<open>guess\<close>. Python's \<open>//\<close> rounds down, as \<open>div\<close> on \<open>int\<close> does.\<close>

function binary_search :: "(int \<Rightarrow> bool) \<Rightarrow> int \<Rightarrow> int \<Rightarrow> int \<Rightarrow> int" where
  "binary_search predicate lower_bound upper_bound guess =
     (if upper_bound - lower_bound > 1
      then (let g = lower_bound + (upper_bound - lower_bound) div 2
            in if \<not> predicate g
               then binary_search predicate lower_bound g lower_bound
               else binary_search predicate g upper_bound g)
      else guess)"
  by pat_completeness auto
termination
  by (relation "measure (\<lambda>(predicate, lower_bound, upper_bound, guess). nat (upper_bound - lower_bound))") auto

text \<open>
  The branch for a negative \<open>initial\<close> calls \<open>_search_maxsatisfying\<close>. Module
  \<open>_util\<close> binds no such name (the function is \<open>search_maxsatisfying\<close>; the alias with
  the underscore exists only in \<open>macaulay.py\<close>), so evaluating the call raises
  \<open>NameError\<close> before anything else happens.
\<close>

definition search_maxsatisfying :: "(int \<Rightarrow> bool) \<Rightarrow> int \<Rightarrow> (int \<Rightarrow> int) \<Rightarrow> (error + int) option" where
  "search_maxsatisfying predicate initial incf =
     (if initial < 0 then Some (Inl (NameError ''_search_maxsatisfying''))
      else if \<not> predicate initial then Some (Inl (ValueError ''initial guess does not satisfy predicate''))
      else case exponential_approach predicate incf initial (initial + 1) of
             None \<Rightarrow> None
           | Some (lower_bound, upper_bound) \<Rightarrow>
               (let guess = binary_search predicate lower_bound upper_bound lower_bound
                in if predicate guess \<and> \<not> predicate (guess + 1) then Some (Inr guess)
                   else Some (Inl AssertionError)))"

subsection \<open>\<open>MixedBase\<close>\<close>

text \<open>
  A \<open>MixedBase\<close> object holds the tuple \<open>base\<close>. \<open>to_int\<close> walks
  \<open>zip(reversed(self.base), value, strict=True)\<close>: the first digit meets the last
  radix. With \<open>strict=True\<close> the zip raises \<open>ValueError\<close> when one side ends before the
  other, after the pairs before that point have been processed.
\<close>

definition order :: "int list \<Rightarrow> int" where
  "order base = prod_list base"

fun to_int_loop :: "int list \<Rightarrow> int list \<Rightarrow> int \<Rightarrow> error + int" where
  "to_int_loop [] [] i = Inr i"
| "to_int_loop (b # bs) (digit # ds) i =
     (if \<not> (0 \<le> digit \<and> digit < b) then Inl (ValueError ''digit out of range'')
      else to_int_loop bs ds (i * b + digit))"
| "to_int_loop [] (digit # ds) i = Inl (ValueError ''zip() argument 2 is longer than argument 1'')"
| "to_int_loop (b # bs) [] i = Inl (ValueError ''zip() argument 2 is shorter than argument 1'')"

definition to_int :: "int list \<Rightarrow> int list \<Rightarrow> error + int" where
  "to_int base value = to_int_loop (rev base) value 0"

text \<open>
  The value the specification gives for a digit tuple, in its own words: fold
  \<open>acc = acc*b\<^sub>j + digit\<^sub>j\<close> over the radixes in declared order, the first
  declared radix the most significant. It is here to be compared with \<open>to_int\<close>.
\<close>

definition to_int_spec :: "int list \<Rightarrow> int list \<Rightarrow> int" where
  "to_int_spec base digits = foldl (\<lambda>acc (b, digit). acc * b + digit) 0 (zip base digits)"

text \<open>
  \<open>from_int\<close> starts from \<open>value = ...\<close>, the \<open>Ellipsis\<close> object, which has neither
  \<open>append\<close> nor \<open>reverse\<close>. The first pass of the loop computes \<open>divmod(i, b)\<close>
  (\<open>ZeroDivisionError\<close> for a zero radix) and then fails in \<open>value.append\<close>; with an empty
  base the range check comes first and \<open>value.reverse()\<close> fails after it.
\<close>

fun from_int :: "int list \<Rightarrow> int \<Rightarrow> error + int list" where
  "from_int [] i =
     (if i \<noteq> 0 then Inl (ValueError ''integer out of range'')
      else Inl (AttributeError ''reverse''))"
| "from_int (b # bs) i =
     (if b = 0 then Inl ZeroDivisionError else Inl (AttributeError ''append''))"

section \<open>\<open>Multiset.py\<close>: the values a Multiset holds, and their keys\<close>

text \<open>
  Python objects, as far as \<open>hashable_universal_key\<close> and the comparisons of the
  Multiset tell them apart: a number (an instance of \<open>numbers.Real\<close>; integers here), a
  tuple of objects, a string, or any other hashable object (\<open>None\<close>, a \<open>bytes\<close> object,
  an instance of a plain class). \<open>hash(obj)\<close> is chosen by the interpreter, for strings
  anew in every process, so a string carries the value \<open>hash\<close> returns for it in the
  process at hand, and an object of the last kind is given by which object it is and by
  its hash. Strings are ordered by their characters; objects of the last kind define no
  ordering and are not iterable.
\<close>

datatype pyobj = Num int | Tup "pyobj list" | Str string int | Opq nat int

text \<open>The keys \<open>(0, obj)\<close>, \<open>(1, tuple(keys))\<close> and \<open>(2, hash(obj))\<close>.\<close>

datatype ukey = KNum int | KTup "ukey list" | KHash int

fun hashable_universal_key :: "pyobj \<Rightarrow> ukey" where
  "hashable_universal_key (Num n) = KNum n"
| "hashable_universal_key (Tup xs) = KTup (map hashable_universal_key xs)"
| "hashable_universal_key (Str s h) = KHash h"
| "hashable_universal_key (Opq i h) = KHash h"

fun key_tag :: "ukey \<Rightarrow> nat" where
  "key_tag (KNum n) = 0"
| "key_tag (KTup ks) = 1"
| "key_tag (KHash h) = 2"

text \<open>
  Python's \<open><\<close> on two keys. Tuples compare at the first position where they differ, and
  by length when one is a prefix of the other; the first position of a key is its tag, so
  the second positions are compared only between keys of one kind, and no comparison of
  keys raises.
\<close>

fun key_lt :: "ukey \<Rightarrow> ukey \<Rightarrow> bool" and keys_lt :: "ukey list \<Rightarrow> ukey list \<Rightarrow> bool" where
  "key_lt (KNum a) (KNum b) = (a < b)"
| "key_lt (KTup xs) (KTup ys) = keys_lt xs ys"
| "key_lt (KHash a) (KHash b) = (a < b)"
| "key_lt a b = (key_tag a < key_tag b)"
| "keys_lt [] [] = False"
| "keys_lt [] (y # ys) = True"
| "keys_lt (x # xs) [] = False"
| "keys_lt (x # xs) (y # ys) = (if x = y then keys_lt xs ys else key_lt x y)"

subsection \<open>The sorted list behind a Multiset\<close>

text \<open>
  \<open>SortedList(key=hashable_universal_key)\<close> comes from the third-party package
  \<open>sortedcontainers\<close>; the model follows its contract. The list is kept sorted by key;
  \<open>add\<close> places a value to the right of the values whose key is not greater
  (\<open>bisect_right\<close>), and \<open>update\<close> gives the same list as adding the values one by one.
  \<open>remove\<close> deletes the first occurrence of a value and raises \<open>ValueError\<close> when there
  is none, \<open>discard\<close> does the same without raising, \<open>count\<close> counts the occurrences.
\<close>

fun sortedlist_add :: "pyobj \<Rightarrow> pyobj list \<Rightarrow> pyobj list" where
  "sortedlist_add v [] = [v]"
| "sortedlist_add v (x # xs) =
     (if key_lt (hashable_universal_key v) (hashable_universal_key x) then v # x # xs
      else x # sortedlist_add v xs)"

definition sortedlist_update :: "pyobj list \<Rightarrow> pyobj list \<Rightarrow> pyobj list" where
  "sortedlist_update sl iterable = foldl (\<lambda>acc v. sortedlist_add v acc) sl iterable"

definition sortedlist_remove :: "pyobj list \<Rightarrow> pyobj \<Rightarrow> error + pyobj list" where
  "sortedlist_remove sl v = (if v \<in> set sl then Inr (remove1 v sl) else Inl (ValueError ''not in list''))"

definition sortedlist_discard :: "pyobj list \<Rightarrow> pyobj \<Rightarrow> pyobj list" where
  "sortedlist_discard sl v = remove1 v sl"

subsection \<open>Construction and the list-like methods\<close>

text \<open>A Multiset object is its private \<open>__sortedlist\<close>, written in iteration order.\<close>

type_synonym multiset_obj = "pyobj list"

definition extend :: "multiset_obj \<Rightarrow> pyobj list \<Rightarrow> multiset_obj" where
  "extend self iterable = sortedlist_update self iterable"

definition Multiset :: "pyobj list \<Rightarrow> multiset_obj" where
  "Multiset iterable = extend [] iterable"

definition iter :: "multiset_obj \<Rightarrow> pyobj list" where
  "iter self = self"

definition len :: "multiset_obj \<Rightarrow> nat" where
  "len self = length self"

definition count_ms :: "multiset_obj \<Rightarrow> pyobj \<Rightarrow> int" where
  "count_ms self elem = int (count_list self elem)"

subsection \<open>Generators\<close>

text \<open>
  A generator over finitely many items, as its consumer sees it: it yields an item and
  goes on, ends, or raises. What is behind a raise is never produced.
\<close>

datatype 'a gen = Done | Raise error | Yield 'a "'a gen"

text \<open>The generator expression \<open>(f(x) for x in it if c(x))\<close>, where evaluating \<open>f(x)\<close>
  may raise.\<close>

fun genexpr :: "('a \<Rightarrow> bool) \<Rightarrow> ('a \<Rightarrow> error + 'b) \<Rightarrow> 'a gen \<Rightarrow> 'b gen" where
  "genexpr c f Done = Done"
| "genexpr c f (Raise e) = Raise e"
| "genexpr c f (Yield x it) =
     (if c x then (case f x of Inl e \<Rightarrow> Raise e | Inr y \<Rightarrow> Yield y (genexpr c f it))
      else genexpr c f it)"

text \<open>\<open>list(it)\<close>, and every other consumer that runs the generator to its end.\<close>

fun gen_list :: "'a gen \<Rightarrow> error + 'a list" where
  "gen_list Done = Inr []"
| "gen_list (Raise e) = Inl e"
| "gen_list (Yield x it) = (case gen_list it of Inl e \<Rightarrow> Inl e | Inr xs \<Rightarrow> Inr (x # xs))"

text \<open>\<open>any(it)\<close> on a generator of pairs: a pair is true, so \<open>any\<close> stops at the first
  item and never runs what comes after it.\<close>

fun gen_any :: "'a gen \<Rightarrow> error + bool" where
  "gen_any Done = Inr False"
| "gen_any (Raise e) = Inl e"
| "gen_any (Yield x it) = Inr True"

subsection \<open>\<open>joint_groupby\<close>\<close>

text \<open>
  Python's own \<open><\<close> between two objects: numbers by value, strings by their characters,
  tuples at the first position where they differ (by length when one is a prefix of the
  other). Any other pair raises \<open>TypeError\<close>.
\<close>

fun str_lt :: "string \<Rightarrow> string \<Rightarrow> bool" where
  "str_lt [] [] = False"
| "str_lt [] (d # ds) = True"
| "str_lt (c # cs) [] = False"
| "str_lt (c # cs) (d # ds) = (if c = d then str_lt cs ds else (of_char c :: nat) < of_char d)"

fun py_lt :: "pyobj \<Rightarrow> pyobj \<Rightarrow> error + bool" and py_lt_list :: "pyobj list \<Rightarrow> pyobj list \<Rightarrow> error + bool" where
  "py_lt (Num a) (Num b) = Inr (a < b)"
| "py_lt (Str s g) (Str t h) = Inr (str_lt s t)"
| "py_lt (Tup xs) (Tup ys) = py_lt_list xs ys"
| "py_lt a b = Inl (TypeError ''< not supported'')"
| "py_lt_list [] [] = Inr False"
| "py_lt_list [] (y # ys) = Inr True"
| "py_lt_list (x # xs) [] = Inr False"
| "py_lt_list (x # xs) (y # ys) = (if x = y then py_lt_list xs ys else py_lt x y)"

text \<open>
  The buffer holds the next value of every iterable, or \<open>stop\<close> (\<open>None\<close> here).
  \<open>_choice\<close> is \<open>min\<close> under the key \<open>(0, val)\<close>, \<open>(1,)\<close> for \<open>stop\<close>: \<open>min\<close> keeps the first
  item and replaces it by a later one whose key is smaller. No \<open>key=\<close> reaches
  \<open>joint_groupby\<close> from the Multiset, so the values themselves are compared.
\<close>

fun choice_key_lt :: "pyobj option \<Rightarrow> pyobj option \<Rightarrow> error + bool" where
  "choice_key_lt (Some a) (Some b) = (if a = b then Inr False else py_lt a b)"
| "choice_key_lt (Some a) None = Inr True"
| "choice_key_lt None b = Inr False"

fun choice_min :: "pyobj option \<Rightarrow> pyobj option list \<Rightarrow> error + pyobj option" where
  "choice_min best [] = Inr best"
| "choice_min best (v # vs) =
     (case choice_key_lt v best of
        Inl e \<Rightarrow> Inl e
      | Inr smaller \<Rightarrow> choice_min (if smaller then v else best) vs)"

fun choice :: "pyobj option list \<Rightarrow> error + pyobj option" where
  "choice [] = Inr None"
| "choice (v # vs) = choice_min v vs"

fun buffer_of :: "pyobj list \<Rightarrow> pyobj option" where
  "buffer_of [] = None"
| "buffer_of (x # xs) = Some x"

lemma choice_min_in: "choice_min best vs = Inr r \<Longrightarrow> r = best \<or> r \<in> set vs"
  by (induction vs arbitrary: best) (auto split: sum.splits if_splits)

lemma choice_in: "choice vs = Inr (Some t) \<Longrightarrow> Some t \<in> set vs"
  by (cases vs) (auto dest: choice_min_in)

lemma dropWhile_shorter:
  "Some t \<in> set (map buffer_of its) \<Longrightarrow>
   sum_list (map length (map (dropWhile (\<lambda>v. v = t)) its)) < sum_list (map length its)"
proof (induction its)
  case Nil
  then show ?case by simp
next
  case (Cons it its)
  have le: "sum_list (map length (map (dropWhile (\<lambda>v. v = t)) its)) \<le> sum_list (map length its)" for its :: "pyobj list list"
    by (induction its) (auto simp: length_dropWhile_le add_le_mono)
  show ?case
  proof (cases "buffer_of it = Some t")
    case True
    then obtain xs where "it = t # xs" by (cases it) auto
    then have "length (dropWhile (\<lambda>v. v = t) it) < length it"
      by (simp add: length_dropWhile_le less_Suc_eq_le)
    with le [of its] show ?thesis by simp
  next
    case False
    with Cons.prems have "Some t \<in> set (map buffer_of its)" by auto
    from Cons.IH [OF this] length_dropWhile_le [of "\<lambda>v. v = t" it] show ?thesis by simp
  qed
qed

text \<open>
  One pass of the loop of \<open>joint_groupby\<close> picks the target value, and hands out for every
  iterable the run of values equal to it at the front (\<open>_grouper\<close>); the runs are used up
  before the next pass.
\<close>

function joint_groupby :: "pyobj list list \<Rightarrow> (pyobj \<times> pyobj list list) gen" where
  "joint_groupby iterables =
     (case choice (map buffer_of iterables) of
        Inl e \<Rightarrow> Raise e
      | Inr None \<Rightarrow> Done
      | Inr (Some tgtval) \<Rightarrow>
          Yield (tgtval, map (takeWhile (\<lambda>v. v = tgtval)) iterables)
            (joint_groupby (map (dropWhile (\<lambda>v. v = tgtval)) iterables)))"
  by pat_completeness auto
termination
proof (relation "measure (\<lambda>iterables. sum_list (map length iterables))")
  fix iterables :: "pyobj list list" and x2 tgtval
  assume "choice (map buffer_of iterables) = Inr x2" and "x2 = Some tgtval"
  then have "Some tgtval \<in> set (map buffer_of iterables)" by (auto dest: choice_in)
  from dropWhile_shorter [OF this]
  show "(map (dropWhile (\<lambda>v. v = tgtval)) iterables, iterables)
          \<in> measure (\<lambda>iterables. sum_list (map length iterables))" by simp
qed simp

fun gen_map :: "('a \<Rightarrow> 'b) \<Rightarrow> 'a gen \<Rightarrow> 'b gen" where
  "gen_map f Done = Done"
| "gen_map f (Raise e) = Raise e"
| "gen_map f (Yield x it) = Yield (f x) (gen_map f it)"

definition joint_group_count :: "pyobj list list \<Rightarrow> (pyobj \<times> int list) gen" where
  "joint_group_count iterables =
     gen_map (\<lambda>(x, groups). (x, map (\<lambda>group. int (length group)) groups)) (joint_groupby iterables)"

subsection \<open>Multiplicities per element\<close>

text \<open>
  \<open>max\<close>, \<open>min\<close> and \<open>functools.reduce\<close> on the tuple \<open>counts\<close>. The tuple has one entry for
  every iterable and \<open>self\<close> is always one of them, so it is never empty; the equations
  for the empty tuple are never used.
\<close>

fun py_max :: "int list \<Rightarrow> int" where
  "py_max [] = 0"
| "py_max (c # cs) = fold max cs c"

fun py_min :: "int list \<Rightarrow> int" where
  "py_min [] = 0"
| "py_min (c # cs) = fold min cs c"

fun reduce :: "(int \<Rightarrow> int \<Rightarrow> int) \<Rightarrow> int list \<Rightarrow> int" where
  "reduce f [] = 0"
| "reduce f (c # cs) = foldl f c cs"

definition soft_diff :: "int \<Rightarrow> int \<Rightarrow> int" where
  "soft_diff a b = max 0 (a - b)"

definition symm_diff :: "int \<Rightarrow> int \<Rightarrow> int" where
  "symm_diff a b = \<bar>a - b\<bar>"

text \<open>
  The four private generators. \<open>self\<close> and the others are Multiset objects, on which
  \<open>_maybe_cast_collection\<close> changes nothing; each is read through its iterator.
\<close>

definition union_items :: "multiset_obj \<Rightarrow> multiset_obj list \<Rightarrow> bool \<Rightarrow> (pyobj \<times> int) gen" where
  "union_items self others delta =
     (let it = joint_group_count (map iter (self # others))
      in if \<not> delta
         then genexpr (\<lambda>(elem, counts). py_max counts > 0)
                (\<lambda>(elem, counts). Inr (elem, py_max counts)) it
         else genexpr (\<lambda>(elem, counts). py_max counts > counts ! 0)
                (\<lambda>(elem, counts). Inr (elem, py_max counts - counts ! 0)) it)"

definition intersection_items :: "multiset_obj \<Rightarrow> multiset_obj list \<Rightarrow> bool \<Rightarrow> (pyobj \<times> int) gen" where
  "intersection_items self others delta =
     (let it = joint_group_count (map iter (self # others))
      in if \<not> delta
         then genexpr (\<lambda>(elem, counts). py_min counts > 0)
                (\<lambda>(elem, counts). Inr (elem, py_min counts)) it
         else genexpr (\<lambda>(elem, counts). py_min counts < counts ! 0)
                (\<lambda>(elem, counts). Inr (elem, counts ! 0 - py_min counts)) it)"

definition difference_items :: "multiset_obj \<Rightarrow> multiset_obj list \<Rightarrow> bool \<Rightarrow> (pyobj \<times> int) gen" where
  "difference_items self others delta =
     (let it = joint_group_count (map iter (self # others))
      in if \<not> delta
         then genexpr (\<lambda>(elem, counts). reduce soft_diff counts > 0)
                (\<lambda>(elem, counts). Inr (elem, reduce soft_diff counts)) it
         else genexpr (\<lambda>(elem, counts). reduce soft_diff counts < counts ! 0)
                (\<lambda>(elem, counts). Inr (elem, counts ! 0 - reduce soft_diff counts)) it)"

text \<open>
  With \<open>delta\<close> set, the expression of \<open>__symmetric_difference_items\<close> reads \<open>counts[0]\<close>,
  but the loop unpacks the tuple into \<open>self_count\<close> and \<open>other_count\<close> and nothing binds
  \<open>counts\<close>: the first item that passes the filter raises \<open>NameError\<close>.
\<close>

definition symmetric_difference_items :: "multiset_obj \<Rightarrow> multiset_obj \<Rightarrow> bool \<Rightarrow> (pyobj \<times> int) gen" where
  "symmetric_difference_items self other delta =
     (let it = joint_group_count [iter self, iter other]
      in if \<not> delta
         then genexpr (\<lambda>(elem, counts). counts ! 0 \<noteq> counts ! 1)
                (\<lambda>(elem, counts). Inr (elem, symm_diff (counts ! 0) (counts ! 1))) it
         else genexpr (\<lambda>(elem, counts). counts ! 1 > 0)
                (\<lambda>(elem, counts). Inl (NameError ''counts'')) it)"

subsection \<open>Tests and the operations that return a new Multiset\<close>

text \<open>\<open>from_multiplicities\<close> runs the generator to its end: \<open>repeat(elem, n)\<close> gives \<open>n\<close>
  copies, none for \<open>n \<le> 0\<close>.\<close>

definition from_multiplicities :: "(pyobj \<times> int) gen \<Rightarrow> error + multiset_obj" where
  "from_multiplicities items =
     (case gen_list items of
        Inl e \<Rightarrow> Inl e
      | Inr l \<Rightarrow> Inr (Multiset (concat (map (\<lambda>(elem, n). replicate (nat n) elem) l))))"

definition not_any :: "'a gen \<Rightarrow> error + bool" where
  "not_any it = (case gen_any it of Inl e \<Rightarrow> Inl e | Inr b \<Rightarrow> Inr (\<not> b))"

definition isdisjoint :: "multiset_obj \<Rightarrow> multiset_obj \<Rightarrow> error + bool" where
  "isdisjoint self other = not_any (intersection_items self [other] False)"

definition issubset :: "multiset_obj \<Rightarrow> multiset_obj \<Rightarrow> error + bool" where
  "issubset self other = not_any (intersection_items self [other] True)"

definition issuperset :: "multiset_obj \<Rightarrow> multiset_obj \<Rightarrow> error + bool" where
  "issuperset self other = not_any (union_items self [other] True)"

definition union_ms :: "multiset_obj \<Rightarrow> multiset_obj list \<Rightarrow> error + multiset_obj" where
  "union_ms self others = from_multiplicities (union_items self others False)"

definition intersection :: "multiset_obj \<Rightarrow> multiset_obj list \<Rightarrow> error + multiset_obj" where
  "intersection self others = from_multiplicities (intersection_items self others False)"

definition difference :: "multiset_obj \<Rightarrow> multiset_obj list \<Rightarrow> error + multiset_obj" where
  "difference self others = from_multiplicities (difference_items self others False)"

definition symmetric_difference :: "multiset_obj \<Rightarrow> multiset_obj \<Rightarrow> error + multiset_obj" where
  "symmetric_difference self other = from_multiplicities (symmetric_difference_items self other False)"

definition copy :: "multiset_obj \<Rightarrow> multiset_obj" where
  "copy self = Multiset (iter self)"

text \<open>\<open>__eq__\<close> between two Multiset objects.\<close>

definition eq_ms :: "multiset_obj \<Rightarrow> multiset_obj \<Rightarrow> error + bool" where
  "eq_ms self other = not_any (symmetric_difference_items self other False)"

subsection \<open>The operations that change the Multiset\<close>

text \<open>A method that changes \<open>self\<close> returns the new \<open>self\<close>, or the error it raised.\<close>

definition add_quantity :: "multiset_obj \<Rightarrow> pyobj \<Rightarrow> int \<Rightarrow> multiset_obj" where
  "add_quantity self elem n = extend self (replicate (nat n) elem)"

text \<open>
  \<open>__remove_quantity\<close> runs \<open>starmap(self.__sortedlist.remove, repeat(elem, count))\<close>
  (\<open>splat=True\<close>), that is \<open>remove(*elem)\<close> once per copy: the element is unpacked into
  the arguments of \<open>remove\<close>. A number or an object that is not iterable raises
  \<open>TypeError\<close>; a tuple or string of one item removes that item; any other length gives
  \<open>remove\<close> the wrong number of arguments. A string of one character is its own only
  item.
\<close>

fun remove_splat :: "pyobj list \<Rightarrow> pyobj \<Rightarrow> error + pyobj list" where
  "remove_splat sl (Num n) = Inl (TypeError ''int object is not iterable'')"
| "remove_splat sl (Opq i h) = Inl (TypeError ''object is not iterable'')"
| "remove_splat sl (Tup [v]) = sortedlist_remove sl v"
| "remove_splat sl (Tup vs) = Inl (TypeError ''remove() takes exactly one argument'')"
| "remove_splat sl (Str [c] h) = sortedlist_remove sl (Str [c] h)"
| "remove_splat sl (Str s h) = Inl (TypeError ''remove() takes exactly one argument'')"

fun remove_copies :: "nat \<Rightarrow> pyobj \<Rightarrow> pyobj list \<Rightarrow> error + pyobj list" where
  "remove_copies 0 elem sl = Inr sl"
| "remove_copies (Suc n) elem sl =
     (case remove_splat sl elem of Inl e \<Rightarrow> Inl e | Inr sl' \<Rightarrow> remove_copies n elem sl')"

definition remove_quantity :: "multiset_obj \<Rightarrow> pyobj \<Rightarrow> int \<Rightarrow> error + multiset_obj" where
  "remove_quantity self elem n = remove_copies (nat n) elem self"

definition include_quantity :: "multiset_obj \<Rightarrow> pyobj \<Rightarrow> int \<Rightarrow> error + multiset_obj" where
  "include_quantity self elem n =
     (if n < 0 then remove_quantity self elem (- n) else Inr (add_quantity self elem n))"

text \<open>\<open>map_immed_noretval(f, deltas, splat=True)\<close>: \<open>f(elem, count)\<close> for every delta in
  turn, until one raises.\<close>

fun for_each :: "('s \<Rightarrow> 'a \<Rightarrow> error + 's) \<Rightarrow> 'a list \<Rightarrow> 's \<Rightarrow> error + 's" where
  "for_each f [] self = Inr self"
| "for_each f (x # xs) self = (case f self x of Inl e \<Rightarrow> Inl e | Inr self' \<Rightarrow> for_each f xs self')"

definition update :: "multiset_obj \<Rightarrow> multiset_obj list \<Rightarrow> error + multiset_obj" where
  "update self others =
     (case gen_list (union_items self others True) of
        Inl e \<Rightarrow> Inl e
      | Inr deltas \<Rightarrow> for_each (\<lambda>self (elem, n). Inr (add_quantity self elem n)) deltas self)"

definition intersection_update :: "multiset_obj \<Rightarrow> multiset_obj list \<Rightarrow> error + multiset_obj" where
  "intersection_update self others =
     (case gen_list (intersection_items self others True) of
        Inl e \<Rightarrow> Inl e
      | Inr deltas \<Rightarrow> for_each (\<lambda>self (elem, n). remove_quantity self elem n) deltas self)"

definition difference_update :: "multiset_obj \<Rightarrow> multiset_obj list \<Rightarrow> error + multiset_obj" where
  "difference_update self others =
     (case gen_list (difference_items self others True) of
        Inl e \<Rightarrow> Inl e
      | Inr deltas \<Rightarrow> for_each (\<lambda>self (elem, n). remove_quantity self elem n) deltas self)"

definition symmetric_difference_update :: "multiset_obj \<Rightarrow> multiset_obj \<Rightarrow> error + multiset_obj" where
  "symmetric_difference_update self other =
     (case gen_list (symmetric_difference_items self other True) of
        Inl e \<Rightarrow> Inl e
      | Inr deltas \<Rightarrow> for_each (\<lambda>self (elem, n). include_quantity self elem n) deltas self)"

definition add :: "multiset_obj \<Rightarrow> pyobj \<Rightarrow> multiset_obj" where
  "add self elem = extend self [elem]"

definition remove :: "multiset_obj \<Rightarrow> pyobj \<Rightarrow> error + multiset_obj" where
  "remove self elem = remove_quantity self elem 1"

definition contains :: "multiset_obj \<Rightarrow> pyobj \<Rightarrow> bool" where
  "contains self elem = (elem \<in> set self)"

text \<open>\<open>discard\<close>: \<open>while elem in self: self.__sortedlist.discard(elem)\<close>.\<close>

function discard :: "multiset_obj \<Rightarrow> pyobj \<Rightarrow> multiset_obj" where
  "discard self elem =
     (if contains self elem then discard (sortedlist_discard self elem) elem else self)"
  by pat_completeness auto
termination
  by (relation "measure (\<lambda>(self, elem). length self)")
    (auto simp: contains_def sortedlist_discard_def length_remove1 dest: length_pos_if_in_set)

definition pop :: "multiset_obj \<Rightarrow> error + pyobj \<times> multiset_obj" where
  "pop self =
     (case self of
        [] \<Rightarrow> Inl (KeyError ''pop from an empty Multiset'')
      | x # xs \<Rightarrow> Inr (x, xs))"

definition clear :: "multiset_obj \<Rightarrow> multiset_obj" where
  "clear self = []"

subsection \<open>The order of iteration\<close>

text \<open>
  A list is in key order when no element has a key smaller than the key of an element
  before it.
\<close>

definition key_sorted :: "pyobj list \<Rightarrow> bool" where
  "key_sorted xs =
     sorted_wrt (\<lambda>a b. \<not> key_lt (hashable_universal_key b) (hashable_universal_key a)) xs"

text \<open>
  The Multiset objects a program can hold: made by the constructor or by
  \<open>from_multiplicities\<close>, returned by an operation on such an object, or left behind by
  an operation that changes one. The other operands are arbitrary.
\<close>

inductive built :: "multiset_obj \<Rightarrow> bool" where
  by_init: "built (Multiset iterable)"
| by_from_multiplicities: "from_multiplicities items = Inr ms \<Longrightarrow> built ms"
| by_extend: "built self \<Longrightarrow> built (extend self iterable)"
| by_add: "built self \<Longrightarrow> built (add self elem)"
| by_remove: "built self \<Longrightarrow> remove self elem = Inr self' \<Longrightarrow> built self'"
| by_discard: "built self \<Longrightarrow> built (discard self elem)"
| by_pop: "built self \<Longrightarrow> pop self = Inr (elem, self') \<Longrightarrow> built self'"
| by_clear: "built self \<Longrightarrow> built (clear self)"
| by_copy: "built self \<Longrightarrow> built (copy self)"
| by_union: "built self \<Longrightarrow> union_ms self others = Inr ms \<Longrightarrow> built ms"
| by_intersection: "built self \<Longrightarrow> intersection self others = Inr ms \<Longrightarrow> built ms"
| by_difference: "built self \<Longrightarrow> difference self others = Inr ms \<Longrightarrow> built ms"
| by_symmetric_difference: "built self \<Longrightarrow> symmetric_difference self other = Inr ms \<Longrightarrow> built ms"
| by_update: "built self \<Longrightarrow> update self others = Inr self' \<Longrightarrow> built self'"
| by_intersection_update: "built self \<Longrightarrow> intersection_update self others = Inr self' \<Longrightarrow> built self'"
| by_difference_update: "built self \<Longrightarrow> difference_update self others = Inr self' \<Longrightarrow> built self'"
| by_symmetric_difference_update:
    "built self \<Longrightarrow> symmetric_difference_update self other = Inr self' \<Longrightarrow> built self'"

text \<open>A list that holds numbers only, and the multiplicities of a value in each of
  several lists.\<close>

definition numbers :: "pyobj list \<Rightarrow> bool" where
  "numbers xs = (\<forall>x\<in>set xs. \<exists>n. x = Num n)"

definition counts_of :: "pyobj list list \<Rightarrow> pyobj \<Rightarrow> int list" where
  "counts_of its v = map (\<lambda>it. int (count_list it v)) its"



section \<open>\<open>macaulay.py\<close>: integers, combinations and multisets\<close>

text \<open>
  \<open>math.comb(n, k)\<close> on non-negative arguments. On a negative argument \<open>math.comb\<close>
  raises \<open>ValueError\<close>; the functions below that can reach it with one say so in a guard.
\<close>

definition comb :: "int \<Rightarrow> int \<Rightarrow> int" where
  "comb n k = int (nat n choose nat k)"

text \<open>
  The loop \<open>for j in range(k, 0, -1)\<close> of \<open>integer_to_combination\<close>, with the number of
  passes left as the recursion argument: it is \<open>j\<close> itself. The search starts at
  \<open>initial=0\<close> with the default growth function, so \<open>comb\<close> sees no negative argument.
\<close>

fun combination_digits :: "nat \<Rightarrow> int \<Rightarrow> int set \<Rightarrow> (error + int set) option" where
  "combination_digits 0 remainder s =
     Some (if remainder = 0 then Inr s else Inl AssertionError)"
| "combination_digits (Suc j') remainder s =
     (case search_maxsatisfying (\<lambda>n. \<not> comb n (int (Suc j')) > remainder) 0 increasefunc of
        None \<Rightarrow> None
      | Some (Inl e) \<Rightarrow> Some (Inl e)
      | Some (Inr elem) \<Rightarrow>
          if elem \<in> s then Some (Inl AssertionError)
          else combination_digits j' (remainder - comb elem (int (Suc j'))) (insert elem s))"

definition integer_to_combination :: "int \<Rightarrow> int \<Rightarrow> (error + int set) option" where
  "integer_to_combination i k =
     (if i < 0 then Some (Inl (ValueError ''i too small''))
      else if k < 1 \<and> i > 0 then Some (Inl (ValueError ''k too small''))
      else combination_digits (nat k) i {})"

text \<open>\<open>sum(_comb(elem, j) for j, elem in enumerate(sorted(s), start=1))\<close>; a negative
  element makes \<open>math.comb\<close> raise.\<close>

definition combination_to_integer :: "int set \<Rightarrow> error + int" where
  "combination_to_integer s =
     (if \<exists>elem\<in>s. elem < 0 then Inl (ValueError ''n must be a non-negative integer'')
      else Inr (sum_list (map (\<lambda>(j, elem). comb elem (int j)) (enumerate 1 (sorted_list_of_set s)))))"

text \<open>The sum of \<open>combination_to_integer\<close> on a list already in ascending order; the
  proofs below follow the loop of \<open>integer_to_combination\<close> with it.\<close>

definition cns_rank :: "int list \<Rightarrow> int" where
  "cns_rank L = sum_list (map (\<lambda>(j, elem). comb elem (int j)) (enumerate 1 L))"

definition combination_to_multiset :: "int set \<Rightarrow> multiset_obj" where
  "combination_to_multiset s =
     Multiset (map (\<lambda>(offset, elem). Num (elem - int offset)) (enumerate 0 (sorted_list_of_set s)))"

text \<open>
  \<open>set(elem + offset for offset, elem in enumerate(sorted(ms)))\<close>. Adding an integer to a
  tuple, a string or another object raises \<open>TypeError\<close>, so only a multiset of
  numbers gets through; on those \<open>sorted\<close> is the numeric order.
\<close>

fun the_Num :: "pyobj \<Rightarrow> int option" where
  "the_Num (Num n) = Some n"
| "the_Num (Tup xs) = None"
| "the_Num (Str s h) = None"
| "the_Num (Opq i h) = None"

definition multiset_to_combination :: "multiset_obj \<Rightarrow> error + int set" where
  "multiset_to_combination ms =
     (if \<exists>x\<in>set (iter ms). the_Num x = None then Inl (TypeError ''unsupported operand type(s)'')
      else Inr (set (map (\<lambda>(offset, elem). elem + int offset)
                  (enumerate 0 (sort (map (\<lambda>x. the (the_Num x)) (iter ms)))))))"

definition multicomb :: "int \<Rightarrow> int \<Rightarrow> int" where
  "multicomb n k = comb (n + k - 1) k"

definition multiset_to_integer :: "multiset_obj \<Rightarrow> error + int" where
  "multiset_to_integer ms =
     (case multiset_to_combination ms of Inl e \<Rightarrow> Inl e | Inr s \<Rightarrow> combination_to_integer s)"

definition integer_to_multiset :: "int \<Rightarrow> int \<Rightarrow> (error + multiset_obj) option" where
  "integer_to_multiset i k =
     (case integer_to_combination i k of
        None \<Rightarrow> None
      | Some (Inl e) \<Rightarrow> Some (Inl e)
      | Some (Inr s) \<Rightarrow> Some (Inr (combination_to_multiset s)))"

text \<open>
  The epoch sizes are \<open>multicomb(n, k)\<close> for \<open>k = 0, 1, ...\<close>. For \<open>n < 1\<close> the first of
  them is \<open>comb(n - 1, 0)\<close> on a negative number, which raises.
\<close>

definition integer_to_varmultiset :: "int \<Rightarrow> int \<Rightarrow> (error + multiset_obj) option" where
  "integer_to_varmultiset i n =
     (if n < 1 then Some (Inl (ValueError ''n must be a non-negative integer''))
      else case fit_to_epoch i (Callable (\<lambda>k. multicomb n (int k))) of
             None \<Rightarrow> None
           | Some (Inl e) \<Rightarrow> Some (Inl e)
           | Some (Inr (k, offset)) \<Rightarrow> integer_to_multiset (i - offset) (int k))"

definition varmultiset_to_integer :: "multiset_obj \<Rightarrow> int \<Rightarrow> error + int" where
  "varmultiset_to_integer ms n =
     (let k = len ms; offset = (\<Sum>k' \<leftarrow> [0..<k]. multicomb n (int k'))
      in if n < 1 \<and> 0 < k then Inl (ValueError ''n must be a non-negative integer'')
         else case multiset_to_integer ms of Inl e \<Rightarrow> Inl e | Inr v \<Rightarrow> Inr (v + offset))"

section \<open>Properties of \<open>_util.py\<close>\<close>

subsection \<open>\<open>fit_to_epoch\<close>\<close>

text \<open>
  Claim C2. \<open>fit_to_epoch(i, epoch_sizes)\<close> is to return \<open>(epoch_index, offset)\<close> with
  \<open>offset \<le> i < offset + epoch_sizes(epoch_index)\<close>, and to fail on a finite sequence
  whose total never exceeds \<open>i\<close>. The loop moves on only while
  \<open>i - epoch_offset > current_epoch_offset\<close>, so an index equal to the cumulative size stays
  in the epoch before its own: with every epoch of size 1, index 1 is put in epoch 0 at
  offset 0, where \<open>1 < 0 + 1\<close> fails; and the one-epoch list \<open>[1]\<close>, whose total does not
  exceed 1, is accepted for index 1 instead of raising.
\<close>

theorem fit_to_epoch_boundary_index:
  "fit_to_epoch 1 (Callable (\<lambda>k. 1)) = Some (Inr (0, 0))
   \<and> \<not> ((1::int) < 0 + (\<lambda>k::nat. 1) 0)
   \<and> fit_to_epoch 1 (Iterable [1]) = Some (Inr (0, 0))"
  by (simp add: fit_callable.simps)

subsection \<open>\<open>search_maxsatisfying\<close>\<close>

lemma increasefunc_grows: "1 \<le> n \<Longrightarrow> n < increasefunc n"
  by (simp add: increasefunc_def sys_maxsize_def)

text \<open>The exponential approach ends when the predicate fails from some point on and the
  growth function grows, and it ends on a bracket.\<close>

lemma exponential_approach_returns:
  assumes "\<forall>n\<ge>N. \<not> P n" and "\<forall>n\<ge>1. n < incf n"
  shows "P lo \<Longrightarrow> lo < hi \<Longrightarrow> 1 \<le> hi \<Longrightarrow>
    \<exists>lo' hi'. exponential_approach P incf lo hi = Some (lo', hi')
       \<and> P lo' \<and> \<not> P hi' \<and> lo' < hi' \<and> lo \<le> lo'"
proof (induction "nat (N - hi)" arbitrary: lo hi rule: less_induct)
  case less
  show ?case
  proof (cases "P hi")
    case False
    with less.prems show ?thesis
      by (subst exponential_approach.simps) simp
  next
    case True
    with assms(1) have "hi < N" by (meson not_le)
    moreover from assms(2) less.prems have grow: "hi < incf hi" by simp
    ultimately have "nat (N - incf hi) < nat (N - hi)" by simp
    from less.hyps [OF this True grow] less.prems grow
    obtain lo' hi' where "exponential_approach P incf hi (incf hi) = Some (lo', hi')"
      "P lo'" "\<not> P hi'" "lo' < hi'" "hi \<le> lo'" by auto
    with True less.prems show ?thesis
      by (subst exponential_approach.simps) auto
  qed
qed

text \<open>The binary search keeps the bracket and ends on its lower end.\<close>

lemma binary_search_bracket:
  "P lo \<Longrightarrow> \<not> P hi \<Longrightarrow> lo < hi \<Longrightarrow> guess = lo \<Longrightarrow>
   P (binary_search P lo hi guess) \<and> \<not> P (binary_search P lo hi guess + 1)
   \<and> lo \<le> binary_search P lo hi guess"
proof (induction P lo hi guess rule: binary_search.induct)
  case (1 P lo hi guess)
  show ?case
  proof (cases "hi - lo > 1")
    case False
    with 1 have "hi = lo + 1" by simp
    with False 1 show ?thesis by simp
  next
    case True
    define g where "g = lo + (hi - lo) div 2"
    from True have g: "lo < g" "g < hi" by (simp_all add: g_def)
    show ?thesis
    proof (cases "P g")
      case False
      from "1.IH"(1) [OF True g_def False "1.prems"(1) False g(1)]
      have "P (binary_search P lo g lo) \<and> \<not> P (binary_search P lo g lo + 1)
        \<and> lo \<le> binary_search P lo g lo" by simp
      moreover have "binary_search P lo hi guess = binary_search P lo g lo"
        using True False by (subst binary_search.simps) (simp add: g_def Let_def)
      ultimately show ?thesis by simp
    next
      case Pg: True
      then have "\<not> \<not> P g" by simp
      from "1.IH"(2) [OF True g_def this Pg "1.prems"(2) g(2)]
      have "P (binary_search P g hi g) \<and> \<not> P (binary_search P g hi g + 1)
        \<and> g \<le> binary_search P g hi g" by simp
      moreover have "binary_search P lo hi guess = binary_search P g hi g"
        using True Pg by (subst binary_search.simps) (simp add: g_def Let_def)
      ultimately show ?thesis using g by simp
    qed
  qed
qed

lemma search_maxsatisfying_returns:
  assumes "0 \<le> initial" and "P initial" and "\<forall>n\<ge>N. \<not> P n" and "\<forall>n\<ge>1. n < incf n"
  shows "\<exists>g. search_maxsatisfying P initial incf = Some (Inr g) \<and> initial \<le> g \<and> P g \<and> \<not> P (g + 1)"
proof -
  from exponential_approach_returns [OF assms(3,4) assms(2), of "initial + 1"] assms(1)
  obtain lo hi where e: "exponential_approach P incf initial (initial + 1) = Some (lo, hi)"
    and b: "P lo" "\<not> P hi" "lo < hi" "initial \<le> lo" by auto
  from binary_search_bracket [OF b(1,2,3) refl] b(4) e assms(1,2)
  show ?thesis by (simp add: search_maxsatisfying_def Let_def)
qed

text \<open>
  For a non-negative \<open>initial\<close> the search does what its contract says: on a predicate that
  holds at \<open>initial\<close>, fails from some point on and never holds again once it has failed,
  it returns the greatest \<open>n \<ge> initial\<close> that satisfies the predicate.
\<close>

lemma search_maxsatisfying_greatest:
  assumes "0 \<le> initial" and "P initial" and "\<forall>n\<ge>N. \<not> P n" and "\<forall>n\<ge>1. n < incf n"
    and mono: "\<forall>m n. initial \<le> m \<and> m \<le> n \<and> P n \<longrightarrow> P m"
  shows "\<exists>g. search_maxsatisfying P initial incf = Some (Inr g) \<and> initial \<le> g \<and> P g
     \<and> \<not> P (g + 1) \<and> (\<forall>n. initial \<le> n \<and> P n \<longrightarrow> n \<le> g)"
proof -
  from search_maxsatisfying_returns [OF assms(1-4)]
  obtain g where g: "search_maxsatisfying P initial incf = Some (Inr g)" "initial \<le> g" "P g" "\<not> P (g + 1)"
    by blast
  have "n \<le> g" if "initial \<le> n" "P n" for n
  proof (rule ccontr)
    assume "\<not> n \<le> g"
    then have "g + 1 \<le> n" by simp
    with mono g(2) that(2) have "P (g + 1)" by (meson add_increasing2 zero_le_one)
    with g(4) show False by simp
  qed
  with g show ?thesis by blast
qed

text \<open>
  Claim C7. \<open>search_maxsatisfying\<close> is to return the greatest \<open>n \<ge> initial\<close> satisfying the
  predicate, also for a negative \<open>initial\<close>. With the predicate \<open>n \<le> 5\<close> and
  \<open>initial = -1\<close> the answer would be 5; the call ends in \<open>NameError\<close>, because the branch
  for a negative \<open>initial\<close> calls a name the module does not define.
\<close>

theorem search_maxsatisfying_negative_initial:
  "search_maxsatisfying (\<lambda>n. n \<le> 5) (- 1) increasefunc = Some (Inl (NameError ''_search_maxsatisfying''))"
  by (simp add: search_maxsatisfying_def)

subsection \<open>\<open>MixedBase\<close>\<close>

lemma to_int_loop_eq:
  "length ds = length bs \<Longrightarrow>
   to_int_loop bs ds i =
     (if \<forall>(b, digit) \<in> set (zip bs ds). 0 \<le> digit \<and> digit < b
      then Inr (foldl (\<lambda>acc (b, digit). acc * b + digit) i (zip bs ds))
      else Inl (ValueError ''digit out of range''))"
proof (induction bs ds i rule: to_int_loop.induct)
  case (2 b bs digit ds i)
  then show ?case by auto
qed simp_all

lemma from_int_never_returns: "from_int base i \<noteq> Inr v"
  by (cases base) auto

text \<open>
  Claim C6, as amended. \<open>to_int\<close> pairs the digits with the radix vector reversed: for a
  digit tuple as long as the base, it returns the fold \<open>acc = acc*b + digit\<close> over the
  pairs of \<open>zip(reversed(base), digits)\<close> when every digit lies in the range of the radix
  it is paired with, and raises the range error otherwise. So the first digit is the
  most significant, and it belongs to the last declared radix.
\<close>

theorem to_int_reversed_base:
  "length digits = length base \<Longrightarrow>
   to_int base digits =
     (if \<forall>(b, digit) \<in> set (zip (rev base) digits). 0 \<le> digit \<and> digit < b
      then Inr (foldl (\<lambda>acc (b, digit). acc * b + digit) 0 (zip (rev base) digits))
      else Inl (ValueError ''digit out of range''))"
  unfolding to_int_def by (rule to_int_loop_eq) simp

theorem to_int_reversed_base_witness:
  "length [1, 1 :: int] = length [2, 3 :: int] \<and> to_int [2, 3] [1, 1] = Inr 3"
  using to_int_reversed_base [of "[1, 1]" "[2, 3]"] by simp

text \<open>
  Claim C6 as the specification states it fails on the base \<open>(2, 3)\<close>: the digits
  \<open>(1, 1)\<close> are in range position by position and stand for \<open>1*3 + 1 = 4\<close>, but \<open>to_int\<close>
  returns 3; the digits \<open>(1, 2)\<close> are in range as well and are rejected.
\<close>

theorem to_int_first_radix_counterexample:
  "to_int [2, 3] [1, 1] = Inr 3 \<and> to_int_spec [2, 3] [1, 1] = 4
   \<and> to_int [2, 3] [1, 2] = Inl (ValueError ''digit out of range'')"
  by (simp add: to_int_def to_int_spec_def)

section \<open>Properties of \<open>macaulay.py\<close>\<close>

subsection \<open>Binomial coefficients as \<open>comb\<close> computes them\<close>

lemma comb_nonneg: "0 \<le> comb n k"
  by (simp add: comb_def)

lemma comb_mono: "m \<le> n \<Longrightarrow> comb m k \<le> comb n k"
  by (simp add: comb_def binomial_right_mono nat_mono)

lemma comb_zero_right: "comb n 0 = 1"
  by (simp add: comb_def)

lemma comb_int: "comb n (int k) = int (nat n choose k)"
  by (simp add: comb_def)

lemma comb_zero_left: "comb 0 (int (Suc j)) = 0"
  unfolding comb_int by simp

lemma comb_one: "0 \<le> n \<Longrightarrow> comb n 1 = n"
  by (simp add: comb_def)

lemma comb_pascal: "0 \<le> n \<Longrightarrow> comb (n + 1) (int (Suc j)) = comb n (int j) + comb n (int (Suc j))"
proof -
  assume "0 \<le> n"
  then have "nat (n + 1) = Suc (nat n)" by simp
  then show ?thesis unfolding comb_int by simp
qed

lemma binomial_lower: "Suc k \<le> n \<Longrightarrow> n - k \<le> n choose Suc k"
proof (induction k arbitrary: n)
  case 0
  then show ?case by simp
next
  case (Suc k)
  then obtain m where n: "n = Suc m" by (cases n) auto
  with Suc.prems have "Suc k \<le> m" by simp
  from Suc.IH [OF this] have "m - k \<le> m choose Suc k" .
  then show ?case by (simp add: n)
qed

lemma comb_unbounded: "0 \<le> r \<Longrightarrow> r + int (Suc j) \<le> n \<Longrightarrow> r < comb n (int (Suc j))"
proof -
  assume r: "0 \<le> r" and n: "r + int (Suc j) \<le> n"
  then have "Suc j \<le> nat n" by linarith
  from binomial_lower [OF this] have "nat n - j \<le> nat n choose Suc j" .
  then have "int (nat n - j) \<le> comb n (int (Suc j))" unfolding comb_int by simp
  moreover from r n have "r < int (nat n - j)" by linarith
  ultimately show ?thesis by simp
qed

subsection \<open>The search inside \<open>integer_to_combination\<close>\<close>

lemma search_comb:
  assumes "0 \<le> r"
  shows "\<exists>g. search_maxsatisfying (\<lambda>n. \<not> comb n (int (Suc j)) > r) 0 increasefunc = Some (Inr g)
    \<and> 0 \<le> g \<and> comb g (int (Suc j)) \<le> r \<and> r < comb (g + 1) (int (Suc j))"
proof -
  let ?P = "\<lambda>n. \<not> comb n (int (Suc j)) > r"
  have "?P 0" using assms unfolding comb_zero_left by simp
  moreover have "\<forall>n\<ge>r + int (Suc j). \<not> ?P n" using comb_unbounded [OF assms] by simp
  moreover have "\<forall>n\<ge>1. n < increasefunc n" by (simp add: increasefunc_grows)
  ultimately obtain g where "search_maxsatisfying ?P 0 increasefunc = Some (Inr g)" "0 \<le> g" "?P g" "\<not> ?P (g + 1)"
    using search_maxsatisfying_returns [of 0 ?P "r + int (Suc j)" increasefunc] by auto
  then show ?thesis by auto
qed

lemma search_comb_unique:
  assumes "comb g (int (Suc j)) \<le> r" "r < comb (g + 1) (int (Suc j))"
    and "comb g' (int (Suc j)) \<le> r" "r < comb (g' + 1) (int (Suc j))"
  shows "g' = g"
proof (rule ccontr)
  assume "g' \<noteq> g"
  then consider "g' + 1 \<le> g" | "g + 1 \<le> g'" by linarith
  then show False
  proof cases
    case 1
    from comb_mono [OF this] assms show False by (metis leD order_trans)
  next
    case 2
    from comb_mono [OF this] assms show False by (metis leD order_trans)
  qed
qed

subsection \<open>The loop of \<open>integer_to_combination\<close>\<close>

lemma cns_rank_Nil: "cns_rank [] = 0"
  by (simp add: cns_rank_def)

lemma cns_rank_snoc: "cns_rank (L @ [c]) = cns_rank L + comb c (int (Suc (length L)))"
  by (simp add: cns_rank_def enumerate_append_eq)

lemma cns_rank_nonneg: "0 \<le> cns_rank L"
  by (induction L rule: rev_induct) (simp_all add: cns_rank_Nil cns_rank_snoc comb_nonneg del: of_nat_Suc)

lemma combination_digits_step:
  assumes "search_maxsatisfying (\<lambda>n. \<not> comb n (int (Suc j)) > r) 0 increasefunc = Some (Inr g)"
    and "g \<notin> s"
  shows "combination_digits (Suc j) r s = combination_digits j (r - comb g (int (Suc j))) (insert g s)"
  using assms by (simp only: combination_digits.simps option.case sum.case if_False)

lemma combination_digits_forward:
  "0 \<le> r \<Longrightarrow> \<forall>x\<in>s. r < comb x (int j) \<Longrightarrow> (j = 0 \<longrightarrow> r = 0) \<Longrightarrow>
   \<exists>L. combination_digits j r s = Some (Inr (s \<union> set L)) \<and> length L = j \<and> sorted_wrt (<) L
     \<and> (\<forall>x\<in>set L. 0 \<le> x) \<and> (\<forall>x\<in>set L. \<forall>y\<in>s. x < y) \<and> cns_rank L = r"
proof (induction j arbitrary: r s)
  case 0
  then have "combination_digits 0 r s = Some (Inr (s \<union> set []))" by simp
  with 0 show ?case by (intro exI [of _ "[]"]) (simp add: cns_rank_Nil)
next
  case (Suc j)
  from search_comb [OF Suc.prems(1), of j]
  obtain g where g: "search_maxsatisfying (\<lambda>n. \<not> comb n (int (Suc j)) > r) 0 increasefunc = Some (Inr g)"
    "0 \<le> g" "comb g (int (Suc j)) \<le> r" "r < comb (g + 1) (int (Suc j))" by blast
  have above: "g < x" if "x \<in> s" for x
  proof (rule ccontr)
    assume "\<not> g < x"
    then have "comb x (int (Suc j)) \<le> comb g (int (Suc j))" by (simp add: comb_mono)
    with g(3) Suc.prems(2) that show False by fastforce
  qed
  then have notin: "g \<notin> s" by blast
  define r' where "r' = r - comb g (int (Suc j))"
  have r'0: "0 \<le> r'" using g(3) by (simp add: r'_def)
  have r'g: "r' < comb g (int j)"
    using g(4) comb_pascal [OF g(2), of j] by (simp add: r'_def)
  have "\<forall>x\<in>insert g s. r' < comb x (int j)"
  proof
    fix x assume "x \<in> insert g s"
    then have "g \<le> x" using above by fastforce
    from comb_mono [OF this] r'g show "r' < comb x (int j)" by (rule less_le_trans [rotated])
  qed
  moreover have "j = 0 \<longrightarrow> r' = 0" using r'0 r'g by (auto simp: comb_zero_right)
  ultimately obtain L where L: "combination_digits j r' (insert g s) = Some (Inr (insert g s \<union> set L))"
    "length L = j" "sorted_wrt (<) L" "\<forall>x\<in>set L. 0 \<le> x" "\<forall>x\<in>set L. \<forall>y\<in>insert g s. x < y"
    "cns_rank L = r'"
    using Suc.IH [OF r'0] by blast
  have "combination_digits (Suc j) r s = Some (Inr (s \<union> set (L @ [g])))"
    using combination_digits_step [OF g(1) notin] L(1) by (simp add: r'_def)
  moreover have "sorted_wrt (<) (L @ [g])" using L(3,5) by (simp add: sorted_wrt_append)
  moreover have "\<forall>x\<in>set (L @ [g]). \<forall>y\<in>s. x < y" using L(5) above by auto
  moreover have "cns_rank (L @ [g]) = r" using L(2,6) by (simp only: cns_rank_snoc r'_def)
  ultimately show ?case using L(2,4) g(2)
    by (intro exI [of _ "L @ [g]"]) simp
qed

lemma cns_rank_bound:
  "sorted_wrt (<) L \<Longrightarrow> \<forall>x\<in>set L. 0 \<le> x \<and> x < c \<Longrightarrow> cns_rank L < comb c (int (length L))"
proof (induction L arbitrary: c rule: rev_induct)
  case Nil
  then show ?case by (simp add: cns_rank_Nil comb_zero_right)
next
  case (snoc d L)
  from snoc.prems have d: "0 \<le> d" "d + 1 \<le> c" and L: "sorted_wrt (<) L" "\<forall>x\<in>set L. 0 \<le> x \<and> x < d"
    by (auto simp: sorted_wrt_append)
  from snoc.IH [OF L] have "cns_rank L < comb d (int (length L))" .
  then have "cns_rank (L @ [d]) < comb (d + 1) (int (Suc (length L)))"
    unfolding cns_rank_snoc comb_pascal [OF d(1)] by simp
  also from comb_mono [OF d(2)] have "\<dots> \<le> comb c (int (Suc (length L)))" .
  finally show ?case by simp
qed

lemma combination_digits_backward:
  "sorted_wrt (<) L \<Longrightarrow> \<forall>x\<in>set L. 0 \<le> x \<Longrightarrow> set L \<inter> s = {} \<Longrightarrow>
   combination_digits (length L) (cns_rank L) s = Some (Inr (s \<union> set L))"
proof (induction L arbitrary: s rule: rev_induct)
  case Nil
  then show ?case by (simp add: cns_rank_Nil)
next
  case (snoc c L)
  let ?J = "int (Suc (length L))"
  let ?r = "cns_rank (L @ [c])"
  from snoc.prems have c: "0 \<le> c" "c \<notin> s" and L: "sorted_wrt (<) L" "\<forall>x\<in>set L. 0 \<le> x \<and> x < c"
    and disj: "set L \<inter> insert c s = {}"
    by (auto simp: sorted_wrt_append)
  have lo: "comb c ?J \<le> ?r" unfolding cns_rank_snoc using cns_rank_nonneg [of L] by simp
  have hi: "?r < comb (c + 1) ?J"
    unfolding cns_rank_snoc comb_pascal [OF c(1)] using cns_rank_bound [OF L] by simp
  from search_comb [where r = "cns_rank (L @ [c])" and j = "length L", OF cns_rank_nonneg]
  obtain g where g: "search_maxsatisfying (\<lambda>n. \<not> comb n ?J > ?r) 0 increasefunc = Some (Inr g)"
    "comb g ?J \<le> ?r" "?r < comb (g + 1) ?J" by blast
  from search_comb_unique [OF g(2,3) lo hi] have "c = g" .
  with g(1) have "search_maxsatisfying (\<lambda>n. \<not> comb n ?J > ?r) 0 increasefunc = Some (Inr c)" by simp
  from combination_digits_step [OF this c(2)]
  have "combination_digits (Suc (length L)) ?r s = combination_digits (length L) (cns_rank L) (insert c s)"
    unfolding cns_rank_snoc by simp
  also from snoc.IH [OF L(1) _ disj] L(2) have "\<dots> = Some (Inr (insert c s \<union> set L))" by blast
  finally show ?case by simp
qed

lemma sorted_list_of_strict: "sorted_wrt (<) (L :: int list) \<Longrightarrow> sorted_list_of_set (set L) = L"
  by (simp add: strict_sorted_iff sorted_list_of_set.idem_if_sorted_distinct)

lemma combination_to_integer_rank:
  "finite s \<Longrightarrow> \<forall>x\<in>s. 0 \<le> x \<Longrightarrow> combination_to_integer s = Inr (cns_rank (sorted_list_of_set s))"
  by (auto simp: combination_to_integer_def cns_rank_def)

lemma integer_to_combination_forward:
  assumes "0 \<le> i" and "1 \<le> k \<or> i = 0"
  shows "\<exists>L. integer_to_combination i k = Some (Inr (set L)) \<and> length L = nat k \<and> sorted_wrt (<) L
     \<and> (\<forall>x\<in>set L. 0 \<le> x) \<and> cns_rank L = i"
proof -
  from assms have "nat k = 0 \<longrightarrow> i = 0" by auto
  from combination_digits_forward [OF assms(1) _ this, of "{}"]
  obtain L where "combination_digits (nat k) i {} = Some (Inr (set L))" "length L = nat k"
    "sorted_wrt (<) L" "\<forall>x\<in>set L. 0 \<le> x" "cns_rank L = i" by auto
  moreover from assms have "integer_to_combination i k = combination_digits (nat k) i {}"
    by (auto simp: integer_to_combination_def)
  ultimately show ?thesis by auto
qed

text \<open>
  Claim C9. For every \<open>i \<ge> 0\<close> and every \<open>k\<close> with \<open>k \<ge> 1\<close> or \<open>i = 0\<close>, the remainder
  left when \<open>integer_to_combination(i, k)\<close> has extracted its \<open>k\<close> digits is 0: every search
  returns, no assertion fails (neither \<open>elem not in s\<close> nor the final \<open>remainder == 0\<close>),
  and the function returns a set of \<open>k\<close> elements.
\<close>

theorem integer_to_combination_remainder_zero:
  "0 \<le> i \<Longrightarrow> 1 \<le> k \<or> i = 0 \<Longrightarrow>
   \<exists>s. integer_to_combination i k = Some (Inr s) \<and> finite s \<and> card s = nat k"
proof -
  assume "0 \<le> i" "1 \<le> k \<or> i = 0"
  from integer_to_combination_forward [OF this]
  obtain L where L: "integer_to_combination i k = Some (Inr (set L))" "length L = nat k" "sorted_wrt (<) L"
    by blast
  from L(3) have "distinct L" by (simp add: strict_sorted_iff)
  with L(2) have "card (set L) = nat k" by (simp add: distinct_card)
  with L(1) show ?thesis by auto
qed

text \<open>
  Claim C3. For every \<open>i \<ge> 0\<close> and \<open>k \<ge> 1\<close>,
  \<open>combination_to_integer(integer_to_combination(i, k)) == i\<close>; and for every set \<open>s\<close> of
  \<open>k\<close> distinct non-negative integers,
  \<open>integer_to_combination(combination_to_integer(s), k) == s\<close>.
\<close>

theorem combination_round_trip:
  "(0 \<le> i \<and> 1 \<le> k \<longrightarrow>
      (\<exists>s. integer_to_combination i k = Some (Inr s) \<and> combination_to_integer s = Inr i))
   \<and> (finite s \<and> int (card s) = k \<and> 1 \<le> k \<and> (\<forall>x\<in>s. 0 \<le> x) \<longrightarrow>
      (\<exists>i. combination_to_integer s = Inr i \<and> integer_to_combination i k = Some (Inr s)))"
proof (intro conjI impI)
  assume "0 \<le> i \<and> 1 \<le> k"
  then obtain L where L: "integer_to_combination i k = Some (Inr (set L))" "sorted_wrt (<) L"
    "\<forall>x\<in>set L. 0 \<le> x" "cns_rank L = i"
    using integer_to_combination_forward [of i k] by blast
  from L(2,3,4) have "combination_to_integer (set L) = Inr i"
    by (simp add: combination_to_integer_rank sorted_list_of_strict)
  with L(1) show "\<exists>s. integer_to_combination i k = Some (Inr s) \<and> combination_to_integer s = Inr i"
    by blast
next
  assume a: "finite s \<and> int (card s) = k \<and> 1 \<le> k \<and> (\<forall>x\<in>s. 0 \<le> x)"
  define L where "L = sorted_list_of_set s"
  from a have L: "set L = s" "sorted_wrt (<) L" "length L = nat k" "\<forall>x\<in>set L. 0 \<le> x"
    by (auto simp: L_def)
  from a have rank: "combination_to_integer s = Inr (cns_rank L)"
    by (simp add: combination_to_integer_rank L_def)
  from a cns_rank_nonneg [of L]
  have "integer_to_combination (cns_rank L) k = combination_digits (nat k) (cns_rank L) {}"
    by (simp add: integer_to_combination_def)
  also from combination_digits_backward [OF L(2,4), of "{}"] L(1,3)
  have "\<dots> = Some (Inr s)" by simp
  finally show "\<exists>i. combination_to_integer s = Inr i \<and> integer_to_combination i k = Some (Inr s)"
    using rank by blast
qed

theorem combination_round_trip_witness:
  "combination_to_integer {2, 3} = Inr 5 \<and> integer_to_combination 5 2 = Some (Inr {2, 3})"
proof -
  have r: "combination_to_integer {2, 3} = Inr 5"
    by (simp add: combination_to_integer_def comb_def enumerate_eq_zip numeral_2_eq_2 numeral_3_eq_3)
  from combination_round_trip [of 5 2 "{2, 3}"] r show ?thesis by simp
qed

theorem integer_to_combination_remainder_zero_witness:
  "\<exists>s. integer_to_combination 5 2 = Some (Inr s) \<and> finite s \<and> card s = 2"
  using integer_to_combination_remainder_zero [of 5 2] by simp

text \<open>
  Claim C1. \<open>varmultiset_to_integer(integer_to_varmultiset(i, n), n) == i\<close> for all
  \<open>i \<ge> 0\<close>, \<open>n \<ge> 1\<close>, and the round trip the other way for every multiset over
  \<open>[0, n)\<close>. For \<open>i = 1\<close>, \<open>n = 1\<close> the epoch fitter answers epoch 0 at offset 0 (the first
  epoch has size \<open>multicomb(1, 0) = 1\<close>, and \<open>1 > 1\<close> is false), so
  \<open>integer_to_combination(1, 0)\<close> is called and raises. The multiset \<open>{0}\<close> over the
  one-letter alphabet has rank 1, so the round trip from the multiset side fails too.
\<close>

theorem integer_to_varmultiset_one:
  "integer_to_varmultiset 1 1 = Some (Inl (ValueError ''k too small''))
   \<and> varmultiset_to_integer (Multiset [Num 0]) 1 = Inr 1"
  by (simp add: integer_to_varmultiset_def fit_callable.simps multicomb_def comb_def
      integer_to_multiset_def integer_to_combination_def
      varmultiset_to_integer_def Multiset_def extend_def sortedlist_update_def len_def
      multiset_to_integer_def multiset_to_combination_def iter_def
      combination_to_integer_def enumerate_eq_zip)

section \<open>Properties of \<open>Multiset.py\<close>\<close>

subsection \<open>The order of the keys\<close>

text \<open>Python's \<open><\<close> on keys is a strict total order: no comparison is left undecided.\<close>

lemma keys_lt_irrefl: "\<not> keys_lt ks ks"
  by (induction ks) auto

lemma key_lt_irrefl: "\<not> key_lt k k"
  by (cases k) (auto simp: keys_lt_irrefl)



lemma keys_lt_Cons_Cons:
  "keys_lt (x # xs) (y # ys) \<longleftrightarrow> (x = y \<and> keys_lt xs ys) \<or> (x \<noteq> y \<and> key_lt x y)"
  by simp

lemma keys_lt_trans:
  assumes "\<And>x b c. x \<in> set xs \<Longrightarrow> key_lt x b \<Longrightarrow> key_lt b c \<Longrightarrow> key_lt x c"
  shows "keys_lt xs ys \<Longrightarrow> keys_lt ys zs \<Longrightarrow> keys_lt xs zs"
  using assms
proof (induction xs arbitrary: ys zs)
  case Nil
  from Nil.prems(1,2) show ?case by (cases ys; cases zs) simp_all
next
  case (Cons x xs)
  from Cons.prems(1) obtain y ys' where ys: "ys = y # ys'" by (cases ys) simp_all
  from Cons.prems(2) ys obtain z zs' where zs: "zs = z # zs'" by (cases zs) simp_all
  from Cons.prems(1) have p1: "(x = y \<and> keys_lt xs ys') \<or> (x \<noteq> y \<and> key_lt x y)"
    unfolding ys keys_lt_Cons_Cons .
  from Cons.prems(2) have p2: "(y = z \<and> keys_lt ys' zs') \<or> (y \<noteq> z \<and> key_lt y z)"
    unfolding ys zs keys_lt_Cons_Cons .
  have tr: "key_lt x b \<Longrightarrow> key_lt b c \<Longrightarrow> key_lt x c" for b c
    by (rule Cons.prems(3) [of x b c]) simp_all
  have rest: "x' \<in> set xs \<Longrightarrow> key_lt x' b \<Longrightarrow> key_lt b c \<Longrightarrow> key_lt x' c" for x' b c
    by (rule Cons.prems(3) [of x' b c]) simp_all
  have "(x = z \<and> keys_lt xs zs') \<or> (x \<noteq> z \<and> key_lt x z)"
  proof -
    consider (ee) "x = y" "keys_lt xs ys'" "y = z" "keys_lt ys' zs'"
      | (el) "x = y" "keys_lt xs ys'" "y \<noteq> z" "key_lt y z"
      | (le) "x \<noteq> y" "key_lt x y" "y = z" "keys_lt ys' zs'"
      | (ll) "x \<noteq> y" "key_lt x y" "y \<noteq> z" "key_lt y z"
      using p1 p2 by blast
    then show ?thesis
    proof cases
      case ee
      have "keys_lt xs zs'" by (rule Cons.IH [OF ee(2,4)]) (rule rest)
      with ee(1,3) show ?thesis by blast
    next
      case el
      then show ?thesis by blast
    next
      case le
      then show ?thesis by blast
    next
      case ll
      from tr [OF ll(2,4)] have xz: "key_lt x z" .
      with key_lt_irrefl [of x] have "x \<noteq> z" by blast
      with xz show ?thesis by blast
    qed
  qed
  then show ?case unfolding zs keys_lt_Cons_Cons .
qed

lemma key_lt_trans: "key_lt a b \<Longrightarrow> key_lt b c \<Longrightarrow> key_lt a c"
proof (induction a arbitrary: b c)
  case (KNum x)
  then show ?case by (cases b; cases c) simp_all
next
  case (KTup xs)
  show ?case
  proof (cases b)
    case (KNum y)
    with KTup.prems(1) show ?thesis by simp
  next
    case b: (KTup ys)
    show ?thesis
    proof (cases c)
      case (KNum z)
      with b KTup.prems(2) show ?thesis by simp
    next
      case c: (KTup zs)
      with b KTup.prems have lt: "keys_lt xs ys" "keys_lt ys zs" by simp_all
      have "keys_lt xs zs" by (rule keys_lt_trans [OF _ lt]) (rule KTup.IH)
      with c show ?thesis by simp
    next
      case (KHash z)
      then show ?thesis by simp
    qed
  next
    case b: (KHash y)
    with KTup.prems(2) show ?thesis by (cases c) simp_all
  qed
next
  case (KHash x)
  then show ?case by (cases b; cases c) simp_all
qed

lemma key_lt_asym: "key_lt a b \<Longrightarrow> \<not> key_lt b a"
  using key_lt_trans key_lt_irrefl by blast

subsection \<open>Every operation keeps the sorted list in key order\<close>

lemma set_sortedlist_add: "set (sortedlist_add v xs) = insert v (set xs)"
  by (induction xs) auto

lemma key_sorted_add: "key_sorted xs \<Longrightarrow> key_sorted (sortedlist_add v xs)"
proof (induction xs)
  case Nil
  then show ?case by (simp add: key_sorted_def)
next
  case (Cons x xs)
  show ?case
  proof (cases "key_lt (hashable_universal_key v) (hashable_universal_key x)")
    case True
    have "\<not> key_lt (hashable_universal_key y) (hashable_universal_key v)" if "y \<in> set (x # xs)" for y
    proof
      assume "key_lt (hashable_universal_key y) (hashable_universal_key v)"
      from key_lt_trans [OF this True] have "key_lt (hashable_universal_key y) (hashable_universal_key x)" .
      with that Cons.prems show False
        by (auto simp: key_sorted_def key_lt_irrefl)
    qed
    with True Cons.prems show ?thesis by (simp add: key_sorted_def)
  next
    case False
    from Cons.prems have "key_sorted xs" by (simp add: key_sorted_def)
    from Cons.IH [OF this] False Cons.prems show ?thesis
      by (auto simp: key_sorted_def set_sortedlist_add)
  qed
qed

lemma key_sorted_update: "key_sorted sl \<Longrightarrow> key_sorted (sortedlist_update sl iterable)"
  unfolding sortedlist_update_def
  by (induction iterable arbitrary: sl) (simp_all add: key_sorted_add)

lemma key_sorted_Nil: "key_sorted []"
  by (simp add: key_sorted_def)

lemma key_sorted_extend: "key_sorted self \<Longrightarrow> key_sorted (extend self iterable)"
  by (simp add: extend_def key_sorted_update)

lemma key_sorted_Multiset: "key_sorted (Multiset iterable)"
  by (simp add: Multiset_def key_sorted_extend key_sorted_Nil)

lemma sorted_wrt_remove1: "sorted_wrt P xs \<Longrightarrow> sorted_wrt P (remove1 x xs)"
proof (induction xs)
  case Nil
  then show ?case by simp
next
  case (Cons y ys)
  have "set (remove1 x ys) \<subseteq> set ys" by (rule set_remove1_subset)
  with Cons show ?case by auto
qed

lemma key_sorted_remove1: "key_sorted xs \<Longrightarrow> key_sorted (remove1 x xs)"
  unfolding key_sorted_def by (rule sorted_wrt_remove1)

lemma key_sorted_sortedlist_remove:
  "key_sorted sl \<Longrightarrow> sortedlist_remove sl v = Inr sl' \<Longrightarrow> key_sorted sl'"
  by (auto simp: sortedlist_remove_def key_sorted_remove1 split: if_splits)

lemma key_sorted_remove_splat:
  "key_sorted sl \<Longrightarrow> remove_splat sl elem = Inr sl' \<Longrightarrow> key_sorted sl'"
  by (induction sl elem rule: remove_splat.induct) (auto dest: key_sorted_sortedlist_remove)

lemma key_sorted_remove_copies:
  "key_sorted sl \<Longrightarrow> remove_copies n elem sl = Inr sl' \<Longrightarrow> key_sorted sl'"
  by (induction n arbitrary: sl)
    (auto split: sum.splits dest: key_sorted_remove_splat)

lemma key_sorted_remove_quantity:
  "key_sorted self \<Longrightarrow> remove_quantity self elem n = Inr self' \<Longrightarrow> key_sorted self'"
  unfolding remove_quantity_def by (rule key_sorted_remove_copies)

lemma key_sorted_add_quantity: "key_sorted self \<Longrightarrow> key_sorted (add_quantity self elem n)"
  by (simp add: add_quantity_def key_sorted_extend)

lemma key_sorted_include_quantity:
  "key_sorted self \<Longrightarrow> include_quantity self elem n = Inr self' \<Longrightarrow> key_sorted self'"
  by (auto simp: include_quantity_def key_sorted_add_quantity split: if_splits
      dest: key_sorted_remove_quantity)

lemma key_sorted_from_multiplicities: "from_multiplicities items = Inr ms \<Longrightarrow> key_sorted ms"
  by (auto simp: from_multiplicities_def key_sorted_Multiset split: sum.splits)

lemma key_sorted_discard: "key_sorted self \<Longrightarrow> key_sorted (discard self elem)"
proof (induction self elem rule: discard.induct)
  case (1 self elem)
  show ?case
  proof (cases "contains self elem")
    case True
    from "1.prems" have "key_sorted (sortedlist_discard self elem)"
      by (simp add: sortedlist_discard_def key_sorted_remove1)
    from "1.IH" [OF True this] True show ?thesis by (subst discard.simps) simp
  next
    case False
    with "1.prems" show ?thesis by (subst discard.simps) simp
  qed
qed

lemma key_sorted_pop: "key_sorted self \<Longrightarrow> pop self = Inr (elem, self') \<Longrightarrow> key_sorted self'"
  by (auto simp: pop_def key_sorted_def split: list.splits)

lemma key_sorted_for_each_add:
  "key_sorted self \<Longrightarrow>
   for_each (\<lambda>self (elem, n). Inr (add_quantity self elem n)) deltas self = Inr self' \<Longrightarrow>
   key_sorted self'"
proof (induction deltas arbitrary: self)
  case Nil
  then show ?case by simp
next
  case (Cons d deltas)
  obtain elem n where d: "d = (elem, n)" by (cases d)
  from Cons.prems(1) have "key_sorted (add_quantity self elem n)" by (rule key_sorted_add_quantity)
  from Cons.IH [OF this] Cons.prems(2) d show ?case by simp
qed

lemma key_sorted_for_each_remove:
  "key_sorted self \<Longrightarrow>
   for_each (\<lambda>self (elem, n). remove_quantity self elem n) deltas self = Inr self' \<Longrightarrow>
   key_sorted self'"
proof (induction deltas arbitrary: self)
  case Nil
  then show ?case by simp
next
  case (Cons d deltas)
  obtain elem n where d: "d = (elem, n)" by (cases d)
  from Cons.prems(2) d obtain s1 where s1: "remove_quantity self elem n = Inr s1"
    "for_each (\<lambda>self (elem, n). remove_quantity self elem n) deltas s1 = Inr self'"
    by (cases "remove_quantity self elem n") simp_all
  from key_sorted_remove_quantity [OF Cons.prems(1) s1(1)] have "key_sorted s1" .
  from Cons.IH [OF this s1(2)] show ?case .
qed

lemma key_sorted_for_each_include:
  "key_sorted self \<Longrightarrow>
   for_each (\<lambda>self (elem, n). include_quantity self elem n) deltas self = Inr self' \<Longrightarrow>
   key_sorted self'"
proof (induction deltas arbitrary: self)
  case Nil
  then show ?case by simp
next
  case (Cons d deltas)
  obtain elem n where d: "d = (elem, n)" by (cases d)
  from Cons.prems(2) d obtain s1 where s1: "include_quantity self elem n = Inr s1"
    "for_each (\<lambda>self (elem, n). include_quantity self elem n) deltas s1 = Inr self'"
    by (cases "include_quantity self elem n") simp_all
  from key_sorted_include_quantity [OF Cons.prems(1) s1(1)] have "key_sorted s1" .
  from Cons.IH [OF this s1(2)] show ?case .
qed

lemma built_key_sorted: "built ms \<Longrightarrow> key_sorted ms"
proof (induction rule: built.induct)
  case (by_init iterable)
  show ?case by (rule key_sorted_Multiset)
next
  case (by_from_multiplicities items ms)
  then show ?case by (rule key_sorted_from_multiplicities)
next
  case (by_extend self iterable)
  from by_extend.IH show ?case by (rule key_sorted_extend)
next
  case (by_add self elem)
  from by_add.IH show ?case unfolding add_def by (rule key_sorted_extend)
next
  case (by_remove self elem self')
  show ?case
    by (rule key_sorted_remove_quantity [OF by_remove.IH by_remove.hyps(2) [unfolded remove_def]])
next
  case (by_discard self elem)
  from by_discard.IH show ?case by (rule key_sorted_discard)
next
  case (by_pop self elem self')
  show ?case by (rule key_sorted_pop [OF by_pop.IH by_pop.hyps(2)])
next
  case (by_clear self)
  show ?case unfolding clear_def by (rule key_sorted_Nil)
next
  case (by_copy self)
  show ?case unfolding copy_def by (rule key_sorted_Multiset)
next
  case (by_union self others ms)
  show ?case
    by (rule key_sorted_from_multiplicities [OF by_union.hyps(2) [unfolded union_ms_def]])
next
  case (by_intersection self others ms)
  show ?case
    by (rule key_sorted_from_multiplicities [OF by_intersection.hyps(2) [unfolded intersection_def]])
next
  case (by_difference self others ms)
  show ?case
    by (rule key_sorted_from_multiplicities [OF by_difference.hyps(2) [unfolded difference_def]])
next
  case (by_symmetric_difference self other ms)
  show ?case
    by (rule key_sorted_from_multiplicities
        [OF by_symmetric_difference.hyps(2) [unfolded symmetric_difference_def]])
next
  case (by_update self others self')
  show ?case
  proof (cases "gen_list (union_items self others True)")
    case (Inl e)
    with by_update.hyps(2) show ?thesis by (simp add: update_def)
  next
    case (Inr deltas)
    with by_update.hyps(2)
    have "for_each (\<lambda>self (elem, n). Inr (add_quantity self elem n)) deltas self = Inr self'"
      by (simp add: update_def)
    from key_sorted_for_each_add [OF by_update.IH this] show ?thesis .
  qed
next
  case (by_intersection_update self others self')
  show ?case
  proof (cases "gen_list (intersection_items self others True)")
    case (Inl e)
    with by_intersection_update.hyps(2) show ?thesis by (simp add: intersection_update_def)
  next
    case (Inr deltas)
    with by_intersection_update.hyps(2)
    have "for_each (\<lambda>self (elem, n). remove_quantity self elem n) deltas self = Inr self'"
      by (simp add: intersection_update_def)
    from key_sorted_for_each_remove [OF by_intersection_update.IH this] show ?thesis .
  qed
next
  case (by_difference_update self others self')
  show ?case
  proof (cases "gen_list (difference_items self others True)")
    case (Inl e)
    with by_difference_update.hyps(2) show ?thesis by (simp add: difference_update_def)
  next
    case (Inr deltas)
    with by_difference_update.hyps(2)
    have "for_each (\<lambda>self (elem, n). remove_quantity self elem n) deltas self = Inr self'"
      by (simp add: difference_update_def)
    from key_sorted_for_each_remove [OF by_difference_update.IH this] show ?thesis .
  qed
next
  case (by_symmetric_difference_update self other self')
  show ?case
  proof (cases "gen_list (symmetric_difference_items self other True)")
    case (Inl e)
    with by_symmetric_difference_update.hyps(2) show ?thesis
      by (simp add: symmetric_difference_update_def)
  next
    case (Inr deltas)
    with by_symmetric_difference_update.hyps(2)
    have "for_each (\<lambda>self (elem, n). include_quantity self elem n) deltas self = Inr self'"
      by (simp add: symmetric_difference_update_def)
    from key_sorted_for_each_include [OF by_symmetric_difference_update.IH this] show ?thesis .
  qed
qed







subsection \<open>The set algebra on multisets of numbers\<close>

text \<open>
  On numbers Python's own order and the order of the keys agree, and the walk of
  \<open>joint_groupby\<close> meets every value once, with its multiplicity in each operand.
\<close>

lemma key_lt_Num: "key_lt (hashable_universal_key (Num a)) (hashable_universal_key (Num b)) \<longleftrightarrow> a < b"
  by simp

lemma front_run:
  "key_sorted xs \<Longrightarrow> numbers xs \<Longrightarrow> \<forall>x\<in>set xs. \<forall>n. x = Num n \<longrightarrow> t \<le> n \<Longrightarrow>
   takeWhile (\<lambda>v. v = Num t) xs = filter (\<lambda>v. v = Num t) xs
   \<and> dropWhile (\<lambda>v. v = Num t) xs = filter (\<lambda>v. v \<noteq> Num t) xs"
proof (induction xs)
  case Nil
  then show ?case by simp
next
  case (Cons x xs)
  from Cons.prems have ks: "key_sorted xs" and nu: "numbers xs"
    and lo: "\<forall>x\<in>set xs. \<forall>n. x = Num n \<longrightarrow> t \<le> n"
    by (simp_all add: key_sorted_def numbers_def)
  show ?case
  proof (cases "x = Num t")
    case True
    with Cons.IH [OF ks nu lo] show ?thesis by simp
  next
    case False
    from Cons.prems(2) obtain n where n: "x = Num n" by (auto simp: numbers_def)
    with False Cons.prems(3) have "t < n" by auto
    have "y \<noteq> Num t" if "y \<in> set xs" for y
    proof
      assume "y = Num t"
      with that Cons.prems(1) n have "\<not> t < n" by (auto simp: key_sorted_def)
      with \<open>t < n\<close> show False by simp
    qed
    then have "filter (\<lambda>v. v = Num t) xs = []" "filter (\<lambda>v. v \<noteq> Num t) xs = xs"
      by (simp_all add: filter_empty_conv filter_id_conv)
    with False show ?thesis by simp
  qed
qed

lemma choice_min_numbers:
  "\<forall>v\<in>set (best # vs). v = None \<or> (\<exists>n. v = Some (Num n)) \<Longrightarrow>
   \<exists>r. choice_min best vs = Inr r \<and> r \<in> set (best # vs)
     \<and> (r = None \<longrightarrow> (\<forall>v\<in>set (best # vs). v = None))
     \<and> (\<forall>n m. r = Some (Num n) \<longrightarrow> Some (Num m) \<in> set (best # vs) \<longrightarrow> n \<le> m)"
proof (induction vs arbitrary: best)
  case Nil
  then show ?case by auto
next
  case (Cons v vs)
  from Cons.prems have v: "v = None \<or> (\<exists>n. v = Some (Num n))"
    and b: "best = None \<or> (\<exists>n. best = Some (Num n))"
    and rest: "\<forall>w\<in>set vs. w = None \<or> (\<exists>n. w = Some (Num n))" by auto
  consider (keep) "choice_key_lt v best = Inr False"
      "v = None \<or> (\<exists>a c. v = Some (Num a) \<and> best = Some (Num c) \<and> c \<le> a)"
    | (take) "choice_key_lt v best = Inr True"
      "\<exists>a. v = Some (Num a) \<and> (best = None \<or> (\<exists>c. best = Some (Num c) \<and> a < c))"
  proof -
    from v b show ?thesis
    proof (elim disjE exE)
      assume "v = None" "best = None"
      then show ?thesis using keep by simp
    next
      fix n assume "v = None" "best = Some (Num n)"
      then show ?thesis using keep by simp
    next
      fix n assume "v = Some (Num n)" "best = None"
      then show ?thesis using take by simp
    next
      fix n c assume "v = Some (Num n)" "best = Some (Num c)"
      then show ?thesis using keep take by (cases "n < c") auto
    qed
  qed
  then show ?case
  proof cases
    case keep
    from rest b have "\<forall>w\<in>set (best # vs). w = None \<or> (\<exists>n. w = Some (Num n))" by simp
    from Cons.IH [OF this] obtain r where r: "choice_min best vs = Inr r" "r \<in> set (best # vs)"
      "r = None \<longrightarrow> (\<forall>v\<in>set (best # vs). v = None)"
      "\<forall>n m. r = Some (Num n) \<longrightarrow> Some (Num m) \<in> set (best # vs) \<longrightarrow> n \<le> m" by blast
    from keep(1) r(1) have "choice_min best (v # vs) = Inr r" by simp
    moreover from r(2) have "r \<in> set (best # v # vs)" by auto
    moreover have "r = None \<longrightarrow> (\<forall>w\<in>set (best # v # vs). w = None)"
    proof
      assume rn: "r = None"
      with r(3) have "best = None" by simp
      with keep(2) have "v = None" by auto
      with rn r(3) show "\<forall>w\<in>set (best # v # vs). w = None" by simp
    qed
    moreover have "\<forall>n m. r = Some (Num n) \<longrightarrow> Some (Num m) \<in> set (best # v # vs) \<longrightarrow> n \<le> m"
    proof (intro allI impI)
      fix n m assume rn: "r = Some (Num n)" and m: "Some (Num m) \<in> set (best # v # vs)"
      show "n \<le> m"
      proof (cases "v = Some (Num m)")
        case True
        with keep(2) obtain c where c: "best = Some (Num c)" "c \<le> m" by auto
        with r(4) rn have "n \<le> c" by simp
        with c show ?thesis by simp
      next
        case False
        with m have "Some (Num m) \<in> set (best # vs)" by auto
        with r(4) rn show ?thesis by blast
      qed
    qed
    ultimately show ?thesis by blast
  next
    case take
    then obtain a where a: "v = Some (Num a)" "best = None \<or> (\<exists>c. best = Some (Num c) \<and> a < c)" by blast
    from rest v have "\<forall>w\<in>set (v # vs). w = None \<or> (\<exists>n. w = Some (Num n))" by simp
    from Cons.IH [OF this] obtain r where r: "choice_min v vs = Inr r" "r \<in> set (v # vs)"
      "r = None \<longrightarrow> (\<forall>w\<in>set (v # vs). w = None)"
      "\<forall>n m. r = Some (Num n) \<longrightarrow> Some (Num m) \<in> set (v # vs) \<longrightarrow> n \<le> m" by blast
    from take(1) r(1) have "choice_min best (v # vs) = Inr r" by simp
    moreover from r(2) have "r \<in> set (best # v # vs)" by auto
    moreover from r(3) a(1) have "r \<noteq> None" by auto
    moreover have "\<forall>n m. r = Some (Num n) \<longrightarrow> Some (Num m) \<in> set (best # v # vs) \<longrightarrow> n \<le> m"
    proof (intro allI impI)
      fix n m assume rn: "r = Some (Num n)" and m: "Some (Num m) \<in> set (best # v # vs)"
      from r(4) rn a(1) have na: "n \<le> a" by simp
      show "n \<le> m"
      proof (cases "Some (Num m) \<in> set (v # vs)")
        case True
        with r(4) rn show ?thesis by blast
      next
        case False
        with m have "best = Some (Num m)" by auto
        with a(2) have "a < m" by auto
        with na show ?thesis by simp
      qed
    qed
    ultimately show ?thesis by blast
  qed
qed

lemma joint_group_count_unfold:
  "joint_group_count its =
     (case choice (map buffer_of its) of
        Inl e \<Rightarrow> Raise e
      | Inr None \<Rightarrow> Done
      | Inr (Some t) \<Rightarrow>
          Yield (t, map (\<lambda>it. int (length (takeWhile (\<lambda>v. v = t) it))) its)
            (joint_group_count (map (dropWhile (\<lambda>v. v = t)) its)))"
  unfolding joint_group_count_def
  by (subst joint_groupby.simps) (simp split: sum.splits option.splits add: comp_def)

lemma buffer_of_numbers:
  "numbers it \<Longrightarrow> buffer_of it = None \<or> (\<exists>n. buffer_of it = Some (Num n))"
  by (cases it) (auto simp: numbers_def)

lemma head_least:
  "key_sorted it \<Longrightarrow> numbers it \<Longrightarrow> buffer_of it = Some (Num h) \<Longrightarrow> Num n \<in> set it \<Longrightarrow> h \<le> n"
  by (cases it) (auto simp: key_sorted_def numbers_def)

lemma choice_numbers:
  assumes "\<forall>it\<in>set its. key_sorted it \<and> numbers it"
  shows "(choice (map buffer_of its) = Inr None \<and> (\<forall>it\<in>set its. it = []))
    \<or> (\<exists>t. choice (map buffer_of its) = Inr (Some (Num t)) \<and> (\<exists>it\<in>set its. Num t \<in> set it)
          \<and> (\<forall>it\<in>set its. \<forall>n. Num n \<in> set it \<longrightarrow> t \<le> n))"
proof (cases its)
  case Nil
  then show ?thesis by simp
next
  case (Cons it0 rest)
  have bufs: "\<forall>v\<in>set (buffer_of it0 # map buffer_of rest). v = None \<or> (\<exists>n. v = Some (Num n))"
    using assms Cons by (auto dest: buffer_of_numbers)
  from choice_min_numbers [OF this] obtain r where
    r: "choice_min (buffer_of it0) (map buffer_of rest) = Inr r"
      "r \<in> set (buffer_of it0 # map buffer_of rest)"
      "r = None \<longrightarrow> (\<forall>v\<in>set (buffer_of it0 # map buffer_of rest). v = None)"
      "\<forall>n m. r = Some (Num n) \<longrightarrow> Some (Num m) \<in> set (buffer_of it0 # map buffer_of rest) \<longrightarrow> n \<le> m"
    by blast
  from r(1) Cons have ch: "choice (map buffer_of its) = Inr r" by simp
  from r(2) Cons have rin: "r \<in> buffer_of ` set its" by auto
  show ?thesis
  proof (cases r)
    case None
    with r(3) Cons have "\<forall>it\<in>set its. buffer_of it = None" by auto
    then have "\<forall>it\<in>set its. it = []" by (metis buffer_of.elims option.distinct(1))
    with ch None show ?thesis by simp
  next
    case (Some x)
    with rin obtain it where it: "it \<in> set its" "buffer_of it = Some x" by auto
    with assms have "numbers it" by simp
    from buffer_of_numbers [OF this] it(2) obtain t where t: "x = Num t" by auto
    from it(2) have "x \<in> set it" by (cases it) auto
    with it(1) t have ex: "\<exists>it\<in>set its. Num t \<in> set it" by blast
    have "t \<le> n" if "it' \<in> set its" "Num n \<in> set it'" for it' n
    proof -
      from that(2) obtain y ys where it': "it' = y # ys" by (cases it') auto
      from that(1) assms have k: "key_sorted it'" "numbers it'" by simp_all
      from buffer_of_numbers [OF k(2)] it' obtain h where h: "buffer_of it' = Some (Num h)" by auto
      from head_least [OF k h that(2)] have "h \<le> n" .
      moreover from h that(1) Cons have "Some (Num h) \<in> set (buffer_of it0 # map buffer_of rest)"
        by (metis image_eqI list.simps(9) set_map)
      with r(4) Some t have "t \<le> h" by blast
      ultimately show ?thesis by simp
    qed
    with ch Some t ex show ?thesis by blast
  qed
qed

lemma count_list_filter_other: "v \<noteq> t \<Longrightarrow> count_list (filter (\<lambda>w. w \<noteq> t) xs) v = count_list xs v"
  by (induction xs) auto

lemma length_filter_eq_count: "length (filter (\<lambda>v. v = t) xs) = count_list xs t"
  by (induction xs) auto

lemma key_sorted_filter: "key_sorted xs \<Longrightarrow> key_sorted (filter P xs)"
  unfolding key_sorted_def by (rule sorted_wrt_filter)

lemma numbers_filter: "numbers xs \<Longrightarrow> numbers (filter P xs)"
  by (simp add: numbers_def)

lemma joint_group_count_numbers:
  "(\<forall>it\<in>set its. key_sorted it \<and> numbers it) \<longrightarrow>
   (\<exists>L. gen_list (joint_group_count its) = Inr L \<and> distinct (map fst L)
      \<and> fst ` set L = \<Union> (set ` set its) \<and> (\<forall>p\<in>set L. snd p = counts_of its (fst p)))"
proof (induction its rule: joint_groupby.induct)
  case (1 its)
  show ?case
  proof
    assume a: "\<forall>it\<in>set its. key_sorted it \<and> numbers it"
    from choice_numbers [OF a] show "\<exists>L. gen_list (joint_group_count its) = Inr L \<and> distinct (map fst L)
      \<and> fst ` set L = \<Union> (set ` set its) \<and> (\<forall>p\<in>set L. snd p = counts_of its (fst p))"
    proof (elim disjE conjE exE)
      assume c: "choice (map buffer_of its) = Inr None" and e: "\<forall>it\<in>set its. it = []"
      from c have "gen_list (joint_group_count its) = Inr []"
        by (subst joint_group_count_unfold) simp
      moreover from e have "\<Union> (set ` set its) = {}" by auto
      ultimately show ?thesis by (intro exI [of _ "[]"]) simp
    next
      fix t
      assume c: "choice (map buffer_of its) = Inr (Some (Num t))"
        and ex: "\<exists>it\<in>set its. Num t \<in> set it"
        and lo: "\<forall>it\<in>set its. \<forall>n. Num n \<in> set it \<longrightarrow> t \<le> n"
      let ?its' = "map (filter (\<lambda>v. v \<noteq> Num t)) its"
      have fr: "takeWhile (\<lambda>v. v = Num t) it = filter (\<lambda>v. v = Num t) it
          \<and> dropWhile (\<lambda>v. v = Num t) it = filter (\<lambda>v. v \<noteq> Num t) it" if "it \<in> set its" for it
      proof (rule front_run)
        from that a show "key_sorted it" "numbers it" by simp_all
        from that lo show "\<forall>x\<in>set it. \<forall>n. x = Num n \<longrightarrow> t \<le> n" by blast
      qed
      then have drop: "map (dropWhile (\<lambda>v. v = Num t)) its = ?its'" by simp
      have cnt: "map (\<lambda>it. int (length (takeWhile (\<lambda>v. v = Num t) it))) its = counts_of its (Num t)"
        using fr by (simp add: counts_of_def length_filter_eq_count)
      have a': "\<forall>it\<in>set ?its'. key_sorted it \<and> numbers it"
        using a by (auto simp: key_sorted_filter numbers_filter)
      from "1.IH" [OF c refl] a' drop obtain L' where
        L': "gen_list (joint_group_count ?its') = Inr L'" "distinct (map fst L')"
          "fst ` set L' = \<Union> (set ` set ?its')" "\<forall>p\<in>set L'. snd p = counts_of ?its' (fst p)"
        by auto
      let ?L = "(Num t, counts_of its (Num t)) # L'"
      have sets: "\<Union> (set ` set ?its') = \<Union> (set ` set its) - {Num t}" by auto
      from L'(1) have L1: "gen_list (joint_group_count (map (dropWhile (\<lambda>v. v = Num t)) its)) = Inr L'"
        by (simp only: drop)
      from c cnt L1 have "gen_list (joint_group_count its) = Inr ?L"
        by (subst joint_group_count_unfold) simp
      moreover from L'(2,3) sets have "distinct (map fst ?L)" by auto
      moreover from L'(3) sets ex have "fst ` set ?L = \<Union> (set ` set its)" by auto
      moreover have "\<forall>p\<in>set ?L. snd p = counts_of its (fst p)"
      proof
        fix p assume "p \<in> set ?L"
        then consider "p = (Num t, counts_of its (Num t))" | "p \<in> set L'" by auto
        then show "snd p = counts_of its (fst p)"
        proof cases
          case 1
          then show ?thesis by simp
        next
          case 2
          with L'(3) sets have "fst p \<noteq> Num t" by auto
          then have "counts_of ?its' (fst p) = counts_of its (fst p)"
            by (simp add: counts_of_def count_list_filter_other comp_def)
          with 2 L'(4) show ?thesis by simp
        qed
      qed
      ultimately show ?thesis by blast
    qed
  qed
qed

lemma gen_list_genexpr:
  "gen_list g = Inr L \<Longrightarrow> gen_list (genexpr c (\<lambda>x. Inr (h x)) g) = Inr (map h (filter c L))"
proof (induction g arbitrary: L)
  case Done
  then show ?case by auto
next
  case (Raise e)
  then show ?case by simp
next
  case (Yield x g)
  from Yield.prems obtain L' where L': "gen_list g = Inr L'" "L = x # L'"
    by (cases "gen_list g") auto
  from Yield.IH [OF L'(1)] L'(2) show ?case by simp
qed

lemma gen_any_genexpr:
  "gen_list g = Inr L \<Longrightarrow> gen_any (genexpr c (\<lambda>x. Inr (h x)) g) = Inr (\<exists>x\<in>set L. c x)"
proof (induction g arbitrary: L)
  case Done
  then show ?case by auto
next
  case (Raise e)
  then show ?case by simp
next
  case (Yield x g)
  from Yield.prems obtain L' where L': "gen_list g = Inr L'" "L = x # L'"
    by (cases "gen_list g") auto
  from Yield.IH [OF L'(1)] L'(2) show ?case by simp
qed

lemma mset_sortedlist_add: "mset (sortedlist_add v xs) = add_mset v (mset xs)"
  by (induction xs) auto

lemma mset_sortedlist_update: "mset (sortedlist_update sl iterable) = mset sl + mset iterable"
  unfolding sortedlist_update_def
  by (induction iterable arbitrary: sl) (simp_all add: mset_sortedlist_add)

lemma mset_Multiset: "mset (Multiset iterable) = mset iterable"
  by (simp add: Multiset_def extend_def mset_sortedlist_update)

lemma count_list_Multiset: "count_list (Multiset iterable) x = count_list iterable x"
  by (metis mset_Multiset count_mset)

lemma count_list_replicate_eq: "count_list (replicate n y) x = (if x = y then n else 0)"
  by (induction n) auto

lemma count_list_concat_replicate:
  "distinct (map fst L) \<Longrightarrow>
   count_list (concat (map (\<lambda>p. replicate (nat (H p)) (fst p)) L)) x
     = (case find (\<lambda>p. fst p = x) L of None \<Rightarrow> 0 | Some p \<Rightarrow> nat (H p))"
proof (induction L)
  case Nil
  then show ?case by simp
next
  case (Cons p L)
  show ?case
  proof (cases "fst p = x")
    case True
    with Cons.prems have "x \<notin> fst ` set L" by auto
    then have "find (\<lambda>p. fst p = x) L = None" by (force simp: find_None_iff)
    with Cons True show ?thesis by (simp add: count_list_replicate_eq)
  next
    case False
    with Cons show ?thesis by (simp add: count_list_replicate_eq)
  qed
qed

lemma concat_map_filter_empty:
  "\<forall>p\<in>set L. \<not> C p \<longrightarrow> g p = [] \<Longrightarrow> concat (map g (filter C L)) = concat (map g L)"
  by (induction L) auto

lemma counts_of_absent: "x \<notin> \<Union> (set ` set its) \<Longrightarrow> counts_of its x = map (\<lambda>it. 0) its"
  by (auto simp: counts_of_def)

lemma algebra_counts:
  assumes a: "\<forall>it\<in>set its. key_sorted it \<and> numbers it"
    and cH: "\<And>cs. c cs \<longleftrightarrow> 0 < H cs"
    and H0: "H (map (\<lambda>it. 0) its) = 0"
  shows "\<exists>R. from_multiplicities
            (genexpr (\<lambda>(elem, counts). c counts) (\<lambda>(elem, counts). Inr (elem, H counts))
               (joint_group_count its)) = Inr R
          \<and> numbers R \<and> key_sorted R
          \<and> (\<forall>x. int (count_list R x) = max 0 (H (counts_of its x)))"
proof -
  from joint_group_count_numbers [of its] a obtain L where
    L: "gen_list (joint_group_count its) = Inr L" "distinct (map fst L)"
      "fst ` set L = \<Union> (set ` set its)" "\<forall>p\<in>set L. snd p = counts_of its (fst p)"
    by blast
  let ?C = "\<lambda>p :: pyobj \<times> int list. c (snd p)"
  let ?h = "\<lambda>p :: pyobj \<times> int list. (fst p, H (snd p))"
  let ?g = "\<lambda>p :: pyobj \<times> int list. replicate (nat (H (snd p))) (fst p)"
  let ?R = "Multiset (concat (map ?g L))"
  have forms: "(\<lambda>(elem, counts). c counts) = ?C"
    "(\<lambda>(elem, counts). Inr (elem, H counts)) = (\<lambda>p. Inr (?h p) :: error + pyobj \<times> int)"
    by (simp_all add: fun_eq_iff split: prod.splits)
  from gen_list_genexpr [OF L(1), of ?C ?h]
  have gl: "gen_list (genexpr (\<lambda>(elem, counts). c counts) (\<lambda>(elem, counts). Inr (elem, H counts))
      (joint_group_count its)) = Inr (map ?h (filter ?C L))"
    by (simp only: forms)
  have "concat (map (\<lambda>(elem, n). replicate (nat n) elem) (map ?h (filter ?C L)))
      = concat (map ?g (filter ?C L))"
    by (simp add: comp_def)
  also have "\<dots> = concat (map ?g L)"
    by (rule concat_map_filter_empty) (simp add: cH)
  finally have res: "from_multiplicities
      (genexpr (\<lambda>(elem, counts). c counts) (\<lambda>(elem, counts). Inr (elem, H counts))
         (joint_group_count its)) = Inr ?R"
    using gl by (simp add: from_multiplicities_def)
  have c1: "count_list ?R x = (case find (\<lambda>p. fst p = x) L of None \<Rightarrow> 0 | Some p \<Rightarrow> nat (H (snd p)))" for x
    unfolding count_list_Multiset by (rule count_list_concat_replicate [OF L(2)])
  have cnt: "int (count_list ?R x) = max 0 (H (counts_of its x))" for x
  proof (cases "find (\<lambda>p. fst p = x) L")
    case None
    then have "x \<notin> fst ` set L" by (force simp: find_None_iff)
    with L(3) have "counts_of its x = map (\<lambda>it. 0) its" by (simp add: counts_of_absent)
    with H0 have "H (counts_of its x) = 0" by simp
    with None show ?thesis unfolding c1 by simp
  next
    case (Some p)
    then have "p \<in> set L" "fst p = x" by (auto simp: find_Some_iff in_set_conv_nth)
    with L(4) have "snd p = counts_of its x" by blast
    with Some show ?thesis unfolding c1 by simp
  qed
  have eq: "set ?R = set (concat (map ?g L))" by (metis mset_Multiset set_mset_mset)
  have sub: "y \<in> fst ` set L" if "y \<in> set ?R" for y
  proof -
    from that eq obtain p where p: "p \<in> set L" "y \<in> set (?g p)" by auto
    from p(2) have "y = fst p" by (simp only: in_set_replicate)
    with p(1) show ?thesis by simp
  qed
  have "numbers ?R"
    unfolding numbers_def
  proof
    fix y assume "y \<in> set ?R"
    with sub L(3) have "y \<in> \<Union> (set ` set its)" by blast
    then obtain it where it: "it \<in> set its" "y \<in> set it" by blast
    with a have "numbers it" by blast
    with it(2) show "\<exists>n. y = Num n" unfolding numbers_def by blast
  qed
  moreover have "key_sorted ?R" by (rule key_sorted_Multiset)
  moreover from cnt have "\<forall>x. int (count_list ?R x) = max 0 (H (counts_of its x))" by blast
  ultimately show ?thesis using res by blast
qed

lemma test_counts:
  assumes a: "\<forall>it\<in>set its. key_sorted it \<and> numbers it"
    and Q0: "\<not> Q (map (\<lambda>it. 0) its)"
  shows "not_any (genexpr (\<lambda>(elem, counts). Q counts) (\<lambda>(elem, counts). Inr (h elem counts))
            (joint_group_count its))
         = Inr (\<forall>x. \<not> Q (counts_of its x))"
proof -
  from joint_group_count_numbers [of its] a obtain L where
    L: "gen_list (joint_group_count its) = Inr L"
      "fst ` set L = \<Union> (set ` set its)" "\<forall>p\<in>set L. snd p = counts_of its (fst p)"
    by blast
  let ?C = "\<lambda>p :: pyobj \<times> int list. Q (snd p)"
  let ?h = "\<lambda>p :: pyobj \<times> int list. h (fst p) (snd p)"
  have forms: "(\<lambda>(elem, counts). Q counts) = ?C"
    "(\<lambda>(elem, counts). Inr (h elem counts)) = (\<lambda>p. Inr (?h p) :: error + 'a)"
    by (simp_all add: fun_eq_iff split: prod.splits)
  from gen_any_genexpr [OF L(1), of ?C ?h]
  have ga: "gen_any (genexpr (\<lambda>(elem, counts). Q counts) (\<lambda>(elem, counts). Inr (h elem counts))
      (joint_group_count its)) = Inr (\<exists>p\<in>set L. Q (snd p))"
    by (simp only: forms)
  have "(\<exists>p\<in>set L. Q (snd p)) \<longleftrightarrow> (\<exists>x. Q (counts_of its x))"
  proof
    assume "\<exists>p\<in>set L. Q (snd p)"
    then obtain p where "p \<in> set L" "Q (snd p)" by blast
    with L(3) have "Q (counts_of its (fst p))" by auto
    then show "\<exists>x. Q (counts_of its x)" by blast
  next
    assume "\<exists>x. Q (counts_of its x)"
    then obtain x where x: "Q (counts_of its x)" by blast
    have "x \<in> fst ` set L"
    proof (rule ccontr)
      assume "x \<notin> fst ` set L"
      with L(2) have "counts_of its x = map (\<lambda>it. 0) its" by (simp add: counts_of_absent)
      with x Q0 show False by simp
    qed
    then obtain p where p: "p \<in> set L" "fst p = x" by auto
    with L(3) have "snd p = counts_of its x" by blast
    with x have "Q (snd p)" by simp
    with p(1) show "\<exists>p\<in>set L. Q (snd p)" by blast
  qed
  with ga show ?thesis by (simp add: not_any_def)
qed

lemma counts_of_pair: "counts_of [A, B] x = [count_ms A x, count_ms B x]"
  by (simp add: counts_of_def count_ms_def)

lemma count_ms_nonneg: "0 \<le> count_ms A x"
  by (simp add: count_ms_def)

lemma union_on_numbers:
  assumes "key_sorted A" "numbers A" "key_sorted B" "numbers B"
  shows "\<exists>U. union_ms A [B] = Inr U \<and> numbers U \<and> key_sorted U
    \<and> (\<forall>x. count_ms U x = max (count_ms A x) (count_ms B x))"
proof -
  from assms have a: "\<forall>it\<in>set [A, B]. key_sorted it \<and> numbers it" by simp
  from algebra_counts [OF a, of "\<lambda>cs. py_max cs > 0" py_max]
  obtain U where U: "union_ms A [B] = Inr U" "numbers U" "key_sorted U"
    "\<forall>x. int (count_list U x) = max 0 (py_max (counts_of [A, B] x))"
    by (auto simp: union_ms_def union_items_def iter_def)
  have "count_ms U x = max (count_ms A x) (count_ms B x)" for x
    using U(4) count_ms_nonneg [of A x] count_ms_nonneg [of B x]
    unfolding counts_of_pair by (simp add: count_ms_def)
  with U show ?thesis by blast
qed

lemma intersection_on_numbers:
  assumes "key_sorted A" "numbers A" "key_sorted B" "numbers B"
  shows "\<exists>I. intersection A [B] = Inr I
    \<and> (\<forall>x. count_ms I x = min (count_ms A x) (count_ms B x))"
proof -
  from assms have a: "\<forall>it\<in>set [A, B]. key_sorted it \<and> numbers it" by simp
  from algebra_counts [OF a, of "\<lambda>cs. py_min cs > 0" py_min]
  obtain I where I: "intersection A [B] = Inr I"
    "\<forall>x. int (count_list I x) = max 0 (py_min (counts_of [A, B] x))"
    by (auto simp: intersection_def intersection_items_def iter_def)
  have "count_ms I x = min (count_ms A x) (count_ms B x)" for x
    using I(2) count_ms_nonneg [of A x] count_ms_nonneg [of B x]
    unfolding counts_of_pair by (simp add: count_ms_def)
  with I show ?thesis by blast
qed

lemma difference_on_numbers:
  assumes "key_sorted A" "numbers A" "key_sorted B" "numbers B"
  shows "\<exists>D. difference A [B] = Inr D
    \<and> (\<forall>x. count_ms D x = max 0 (count_ms A x - count_ms B x))"
proof -
  from assms have a: "\<forall>it\<in>set [A, B]. key_sorted it \<and> numbers it" by simp
  from algebra_counts [OF a, of "\<lambda>cs. reduce soft_diff cs > 0" "reduce soft_diff"]
  obtain D where D: "difference A [B] = Inr D"
    "\<forall>x. int (count_list D x) = max 0 (reduce soft_diff (counts_of [A, B] x))"
    by (auto simp: difference_def difference_items_def iter_def soft_diff_def)
  have "count_ms D x = max 0 (count_ms A x - count_ms B x)" for x
    using D(2) unfolding counts_of_pair by (simp add: count_ms_def soft_diff_def)
  with D show ?thesis by blast
qed

lemma issubset_on_numbers:
  assumes "key_sorted A" "numbers A" "key_sorted B" "numbers B"
  shows "issubset A B = Inr (\<forall>x. count_ms A x \<le> count_ms B x)"
proof -
  from assms have a: "\<forall>it\<in>set [A, B]. key_sorted it \<and> numbers it" by simp
  from test_counts [OF a, of "\<lambda>cs. py_min cs < cs ! 0" "\<lambda>elem cs. (elem, cs ! 0 - py_min cs)"]
  have "issubset A B = Inr (\<forall>x. \<not> py_min (counts_of [A, B] x) < counts_of [A, B] x ! 0)"
    by (simp add: issubset_def intersection_items_def iter_def)
  also have "(\<forall>x. \<not> py_min (counts_of [A, B] x) < counts_of [A, B] x ! 0)
      \<longleftrightarrow> (\<forall>x. count_ms A x \<le> count_ms B x)"
  proof -
    have "\<not> min b a < a \<longleftrightarrow> a \<le> b" for a b :: int by auto
    then show ?thesis unfolding counts_of_pair by simp
  qed
  finally show ?thesis .
qed

lemma eq_ms_on_numbers:
  assumes "key_sorted A" "numbers A" "key_sorted B" "numbers B"
  shows "eq_ms A B = Inr (\<forall>x. count_ms A x = count_ms B x)"
proof -
  from assms have a: "\<forall>it\<in>set [A, B]. key_sorted it \<and> numbers it" by simp
  from test_counts [OF a, of "\<lambda>cs. cs ! 0 \<noteq> cs ! 1" "\<lambda>elem cs. (elem, symm_diff (cs ! 0) (cs ! 1))"]
  have "eq_ms A B = Inr (\<forall>x. \<not> counts_of [A, B] x ! 0 \<noteq> counts_of [A, B] x ! 1)"
    by (simp add: eq_ms_def symmetric_difference_items_def iter_def)
  then show ?thesis unfolding counts_of_pair by simp
qed

text \<open>On Multiset objects that hold numbers only, the set algebra does what the
  specification says.\<close>

lemma algebra_on_numbers:
  assumes "built A" "numbers (iter A)" "built B" "numbers (iter B)"
  shows "\<exists>U I D. union_ms A [B] = Inr U \<and> intersection A [B] = Inr I \<and> difference A [B] = Inr D
    \<and> (\<forall>x. count_ms U x = max (count_ms A x) (count_ms B x))
    \<and> (\<forall>x. count_ms I x = min (count_ms A x) (count_ms B x))
    \<and> (\<forall>x. count_ms D x = max 0 (count_ms A x - count_ms B x))
    \<and> (\<exists>sub same. issubset A B = Inr sub \<and> eq_ms U B = Inr same \<and> (sub \<longleftrightarrow> same))"
proof -
  from assms have k: "key_sorted A" "numbers A" "key_sorted B" "numbers B"
    by (simp_all add: built_key_sorted iter_def)
  from union_on_numbers [OF k] obtain U where U: "union_ms A [B] = Inr U" "numbers U" "key_sorted U"
    "\<forall>x. count_ms U x = max (count_ms A x) (count_ms B x)" by blast
  from intersection_on_numbers [OF k] obtain I where I: "intersection A [B] = Inr I"
    "\<forall>x. count_ms I x = min (count_ms A x) (count_ms B x)" by blast
  from difference_on_numbers [OF k] obtain D where D: "difference A [B] = Inr D"
    "\<forall>x. count_ms D x = max 0 (count_ms A x - count_ms B x)" by blast
  have sub: "issubset A B = Inr (\<forall>x. count_ms A x \<le> count_ms B x)"
    by (rule issubset_on_numbers [OF k])
  have "eq_ms U B = Inr (\<forall>x. count_ms U x = count_ms B x)"
    by (rule eq_ms_on_numbers [OF U(3,2) k(3,4)])
  moreover have "(\<forall>x. count_ms U x = count_ms B x) \<longleftrightarrow> (\<forall>x. count_ms A x \<le> count_ms B x)"
    using U(4) by (simp add: max_def)
  ultimately have "eq_ms U B = Inr (\<forall>x. count_ms A x \<le> count_ms B x)" by simp
  with sub U(1,4) I D show ?thesis by blast
qed

subsection \<open>The set algebra on particular operands\<close>

text \<open>
  Claim C4. For all multisets \<open>A\<close>, \<open>B\<close> and every \<open>x\<close>,
  \<open>A.union(B).count(x) == max(A.count(x), B.count(x))\<close>, and likewise for intersection,
  difference and the subset test. The walk of \<open>joint_groupby\<close> picks the least buffered
  value by Python's own \<open><\<close>, while each Multiset iterates in the order of its keys. For
  strings the key is the hash: in a process where \<open>hash('b') < hash('a')\<close> (the numbers
  below are those of \<open>PYTHONHASHSEED=0\<close>), \<open>Multiset(['a', 'b'])\<close> iterates as \<open>b, a\<close>; in
  its union with \<open>Multiset(['a'])\<close> the walk meets \<open>a\<close> twice, once from each operand, and
  the result holds \<open>a\<close> two times where the maximum of the two counts is 1.
\<close>

theorem union_of_strings_miscounts:
  "union_ms (Multiset [Str ''a'' 4644417185603328019, Str ''b'' (- 8420940591063670578)])
      [Multiset [Str ''a'' 4644417185603328019]]
     = Inr [Str ''b'' (- 8420940591063670578), Str ''a'' 4644417185603328019, Str ''a'' 4644417185603328019]
   \<and> count_ms [Str ''b'' (- 8420940591063670578), Str ''a'' 4644417185603328019, Str ''a'' 4644417185603328019]
        (Str ''a'' 4644417185603328019) = 2
   \<and> max (count_ms (Multiset [Str ''a'' 4644417185603328019, Str ''b'' (- 8420940591063670578)]) (Str ''a'' 4644417185603328019))
         (count_ms (Multiset [Str ''a'' 4644417185603328019]) (Str ''a'' 4644417185603328019)) = 1"
  by code_simp

text \<open>
  Claim C8. The set algebra is to succeed on operands whose elements are of different
  kinds, one holding a number and the other a tuple. The walk compares the number with
  the tuple by Python's own \<open><\<close>, which raises \<open>TypeError\<close>: union, intersection,
  difference, symmetric difference and both inclusion tests raise on
  \<open>Multiset([1])\<close> and \<open>Multiset([(1, 2)])\<close>.
\<close>

theorem heterogeneous_operands_raise:
  "union_ms (Multiset [Num 1]) [Multiset [Tup [Num 1, Num 2]]] = Inl (TypeError ''< not supported'')
   \<and> intersection (Multiset [Num 1]) [Multiset [Tup [Num 1, Num 2]]] = Inl (TypeError ''< not supported'')
   \<and> difference (Multiset [Num 1]) [Multiset [Tup [Num 1, Num 2]]] = Inl (TypeError ''< not supported'')
   \<and> symmetric_difference (Multiset [Num 1]) (Multiset [Tup [Num 1, Num 2]]) = Inl (TypeError ''< not supported'')
   \<and> issubset (Multiset [Num 1]) (Multiset [Tup [Num 1, Num 2]]) = Inl (TypeError ''< not supported'')
   \<and> issuperset (Multiset [Num 1]) (Multiset [Tup [Num 1, Num 2]]) = Inl (TypeError ''< not supported'')"
  by code_simp

text \<open>
  Claim C5. Each in-place variant is to end normally and leave \<open>A\<close> equal to what the pure
  operation returns. \<open>symmetric_difference_update\<close> raises \<open>NameError\<close> as soon as the
  other operand has an element, where \<open>symmetric_difference\<close> returns the empty multiset
  for \<open>A = B = Multiset([1])\<close>; \<open>intersection_update\<close> and \<open>difference_update\<close> raise
  \<open>TypeError\<close> as soon as a number has to be removed, because \<open>__remove_quantity\<close> unpacks
  the element into the arguments of \<open>remove\<close>.
\<close>

theorem in_place_variants_raise:
  "symmetric_difference_update (Multiset [Num 1]) (Multiset [Num 1]) = Inl (NameError ''counts'')
   \<and> symmetric_difference (Multiset [Num 1]) (Multiset [Num 1]) = Inr (Multiset [])
   \<and> intersection_update (Multiset [Num 1]) [Multiset []] = Inl (TypeError ''int object is not iterable'')
   \<and> intersection (Multiset [Num 1]) [Multiset []] = Inr (Multiset [])
   \<and> difference_update (Multiset [Num 1]) [Multiset [Num 1]] = Inl (TypeError ''int object is not iterable'')
   \<and> difference (Multiset [Num 1]) [Multiset [Num 1]] = Inr (Multiset [])"
  by code_simp

end
